theory Spec2Isabelle
  imports Main "HOL-Library.Multiset"
begin

section \<open>A shallow embedding of the PII detection and transformation engine\<close>

text \<open>
  The engine lives in the class \<open>PIITool\<close> of \<open>src/app.js\<close>. Its pure part is modelled
  here: the category registry \<open>piiPatterns\<close>, the validators \<open>luhnCheck\<close>,
  \<open>isJsonStructure\<close> and \<open>isCommonWord\<close>, the detectors \<open>processStandardText\<close>,
  \<open>processLargeText\<close> and \<open>processChunk\<close>, the deduplicator \<open>deduplicateMatches\<close> and
  the transformer \<open>processText\<close> / \<open>applyEncryption\<close> / \<open>getSecurityLevel\<close>.

  Conventions of the embedding.
  \<^item> A JavaScript string is a \<open>string\<close>, one \<open>char\<close> per code unit; the model covers
    the code units \<open>0..255\<close>. Indices and lengths are \<open>nat\<close>.
  \<^item> The fields \<open>text\<close> and \<open>index\<close> of a match are \<open>m_text\<close> and \<open>m_index\<close>; the fields
    \<open>matches\<close> and \<open>count\<close> of a detection entry are \<open>d_matches\<close> and \<open>d_count\<close>. The
    display fields (\<open>name\<close>, \<open>color\<close>) that the source spreads into an entry are left out:
    no function of the engine reads them.
  \<^item> The object \<open>this.detectedPII\<close> is an association list in insertion order, which is
    the order \<open>Object.keys\<close>, \<open>Object.values\<close> and \<open>Object.entries\<close> enumerate.
  \<^item> Logging, toasts, progress updates, sleeps and rendering are dropped; an error toast
    followed by \<open>return\<close> is an error value.
\<close>

subsection \<open>String primitives\<close>

definition substring :: "string \<Rightarrow> nat \<Rightarrow> nat \<Rightarrow> string" where
  \<comment> \<open>\<open>s.substring(a, b)\<close>: the arguments are swapped when \<open>a > b\<close>.\<close>
  "substring s a b = take (max a b - min a b) (drop (min a b) s)"

definition slice :: "string \<Rightarrow> nat \<Rightarrow> nat \<Rightarrow> string" where
  \<comment> \<open>\<open>s.slice(a, b)\<close> for non-negative arguments: empty when \<open>b \<le> a\<close>.\<close>
  "slice s a b = take (b - a) (drop a s)"

definition sliceFrom :: "string \<Rightarrow> nat \<Rightarrow> string" where
  \<comment> \<open>\<open>s.slice(a)\<close> for a non-negative argument.\<close>
  "sliceFrom s a = drop a s"

definition endsWith :: "string \<Rightarrow> string \<Rightarrow> bool" where
  "endsWith s suffix = (length suffix \<le> length s \<and> drop (length s - length suffix) s = suffix)"

definition startsWith :: "string \<Rightarrow> string \<Rightarrow> bool" where
  "startsWith s prefix = (take (length prefix) s = prefix)"

definition code :: "char \<Rightarrow> nat" where
  "code c = of_char c"

definition inRange :: "char \<Rightarrow> char \<times> char \<Rightarrow> bool" where
  "inRange c r = (code (fst r) \<le> code c \<and> code c \<le> code (snd r))"

definition toLowerChar :: "char \<Rightarrow> char" where
  \<comment> \<open>\<open>toLowerCase\<close> on the code units \<open>0..255\<close>: A-Z and the accented capitals
      \<open>0xC0..0xDE\<close> other than the multiplication sign \<open>0xD7\<close>.\<close>
  "toLowerChar c =
     (if inRange c (CHR ''A'', CHR ''Z'') \<or> (192 \<le> code c \<and> code c \<le> 222 \<and> code c \<noteq> 215)
      then char_of (code c + 32) else c)"

definition toLowerCase :: "string \<Rightarrow> string" where
  "toLowerCase s = map toLowerChar s"

subsection \<open>Regular expressions\<close>

text \<open>
  The matching rules of the registry are regular-expression literals. Their syntax trees
  are values of \<open>regex\<close>, and \<open>matchRx\<close> is the backtracking matcher of the language
  definition, in continuation-passing style: \<open>matchRx ic s r k i\<close> matches \<open>r\<close> in \<open>s\<close> at
  position \<open>i\<close> and hands the end position to the continuation \<open>k\<close>; \<open>None\<close> is failure.
  \<open>Rep lo hi g r\<close> is the quantifier \<open>{lo,hi}\<close> (\<open>hi = None\<close> for no upper bound), greedy
  when \<open>g\<close>; as in the language definition an iteration that consumes nothing is rejected
  once the lower bound is met. The test \<open>j \<le> length s\<close> there is always true of a position
  a matcher hands on; it makes the termination argument local.
\<close>

datatype regex =
    Eps
  | Lit char
  | Cls "(char \<times> char) list"
  | WordB
  | Seq regex regex
  | Alt regex regex
  | Rep nat "nat option" bool regex
  | NotAhead regex

definition isWordChar :: "char \<Rightarrow> bool" where
  "isWordChar c = (inRange c (CHR ''a'', CHR ''z'') \<or> inRange c (CHR ''A'', CHR ''Z'')
      \<or> inRange c (CHR ''0'', CHR ''9'') \<or> c = CHR ''_'')"

definition swapCase :: "char \<Rightarrow> char" where
  "swapCase c =
     (if inRange c (CHR ''a'', CHR ''z'') then char_of (code c - 32)
      else if inRange c (CHR ''A'', CHR ''Z'') then char_of (code c + 32)
      else c)"

definition classMatches :: "bool \<Rightarrow> (char \<times> char) list \<Rightarrow> char \<Rightarrow> bool" where
  \<comment> \<open>Membership in a character class given as inclusive ranges. Under the \<open>i\<close> flag two
      code units match when their canonical (upper-case) forms agree; every class of the
      registry is ASCII, where that is equality up to the case of a letter.\<close>
  "classMatches ic rs c =
     (list_ex (inRange c) rs \<or> (ic \<and> list_ex (inRange (swapCase c)) rs))"

definition wordAt :: "string \<Rightarrow> nat \<Rightarrow> bool" where
  "wordAt s i = (i < length s \<and> isWordChar (s ! i))"

definition isBoundary :: "string \<Rightarrow> nat \<Rightarrow> bool" where
  "isBoundary s i = ((0 < i \<and> wordAt s (i - 1)) \<noteq> wordAt s i)"

fun decMax :: "nat option \<Rightarrow> nat option" where
  "decMax None = None"
| "decMax (Some n) = Some (n - 1)"

fun minCount :: "regex \<Rightarrow> nat" where
  "minCount (Rep lo hi g r) = lo"
| "minCount _ = 0"

function matchRx :: "bool \<Rightarrow> string \<Rightarrow> regex \<Rightarrow> (nat \<Rightarrow> nat option) \<Rightarrow> nat \<Rightarrow> nat option" where
  "matchRx ic s Eps k i = k i"
| "matchRx ic s (Lit c) k i =
     (if i < length s \<and> classMatches ic [(c, c)] (s ! i) then k (i + 1) else None)"
| "matchRx ic s (Cls rs) k i =
     (if i < length s \<and> classMatches ic rs (s ! i) then k (i + 1) else None)"
| "matchRx ic s WordB k i = (if isBoundary s i then k i else None)"
| "matchRx ic s (Seq r1 r2) k i = matchRx ic s r1 (\<lambda>j. matchRx ic s r2 k j) i"
| "matchRx ic s (Alt r1 r2) k i =
     (case matchRx ic s r1 k i of Some e \<Rightarrow> Some e | None \<Rightarrow> matchRx ic s r2 k i)"
| "matchRx ic s (NotAhead r) k i =
     (case matchRx ic s r Some i of Some e \<Rightarrow> None | None \<Rightarrow> k i)"
| "matchRx ic s (Rep lo hi g r) k i =
     (if hi = Some 0 then k i
      else if 0 < lo then
        matchRx ic s r (\<lambda>j. matchRx ic s (Rep (lo - 1) (decMax hi) g r) k j) i
      else if g then
        (case matchRx ic s r
                (\<lambda>j. if i < j \<and> j \<le> length s
                      then matchRx ic s (Rep 0 (decMax hi) g r) k j else None) i of
           Some e \<Rightarrow> Some e
         | None \<Rightarrow> k i)
      else
        (case k i of
           Some e \<Rightarrow> Some e
         | None \<Rightarrow>
             matchRx ic s r
                (\<lambda>j. if i < j \<and> j \<le> length s
                      then matchRx ic s (Rep 0 (decMax hi) g r) k j else None) i))"
  by pat_completeness auto
termination
  by (relation "inv_image (less_than <*lex*> less_than <*lex*> less_than)
        (\<lambda>(ic, s, r, k, i). (size r, minCount r, length s - i))") auto

text \<open>
  \<open>regex.exec(s)\<close> tries the start positions \<open>lastIndex, lastIndex + 1, ...\<close> up to
  \<open>length s\<close> and returns the first match as (index, end); \<open>match[0]\<close> is the substring
  between them. A regular expression without the \<open>g\<close> flag always starts at 0.
\<close>

function execFrom :: "bool \<Rightarrow> regex \<Rightarrow> string \<Rightarrow> nat \<Rightarrow> (nat \<times> nat) option" where
  "execFrom ic r s i =
     (if length s < i then None
      else case matchRx ic s r Some i of
             Some e \<Rightarrow> Some (i, e)
           | None \<Rightarrow> execFrom ic r s (i + 1))"
  by pat_completeness auto
termination
  by (relation "measure (\<lambda>(ic, r, s, i). length s + 1 - i)") auto

record regexp =
  source :: regex
  global :: bool
  ignoreCase :: bool

definition regexExec :: "regexp \<Rightarrow> string \<Rightarrow> nat \<Rightarrow> (nat \<times> nat) option" where
  "regexExec rx s lastIndex =
     execFrom (ignoreCase rx) (source rx) s (if global rx then lastIndex else 0)"

subsection \<open>Notation of the regular-expression literals\<close>

fun cat :: "regex list \<Rightarrow> regex" where
  "cat [] = Eps"
| "cat [r] = r"
| "cat (r # rs) = Seq r (cat rs)"

fun alts :: "regex list \<Rightarrow> regex" where
  "alts [] = NotAhead Eps"
| "alts [r] = r"
| "alts (r # rs) = Alt r (alts rs)"

definition str :: "string \<Rightarrow> regex" where
  "str w = cat (map Lit w)"

definition rxOpt :: "regex \<Rightarrow> regex" where
  "rxOpt r = Rep 0 (Some 1) True r"

definition rxStar :: "regex \<Rightarrow> regex" where
  "rxStar r = Rep 0 None True r"

definition rxLazyStar :: "regex \<Rightarrow> regex" where
  "rxLazyStar r = Rep 0 None False r"

definition rxPlus :: "regex \<Rightarrow> regex" where
  "rxPlus r = Rep 1 None True r"

definition rxTimes :: "nat \<Rightarrow> regex \<Rightarrow> regex" where
  "rxTimes n r = Rep n (Some n) True r"

definition rxAtLeast :: "nat \<Rightarrow> regex \<Rightarrow> regex" where
  "rxAtLeast n r = Rep n None True r"

definition rxBetween :: "nat \<Rightarrow> nat \<Rightarrow> regex \<Rightarrow> regex" where
  "rxBetween lo hi r = Rep lo (Some hi) True r"

definition ch :: "char \<Rightarrow> char \<times> char" where
  "ch c = (c, c)"

definition upperR :: "(char \<times> char) list" where
  "upperR = [(CHR ''A'', CHR ''Z'')]"

definition lowerR :: "(char \<times> char) list" where
  "lowerR = [(CHR ''a'', CHR ''z'')]"

definition digitR :: "(char \<times> char) list" where
  \<comment> \<open>\<open>\d\<close>\<close>
  "digitR = [(CHR ''0'', CHR ''9'')]"

definition wordR :: "(char \<times> char) list" where
  \<comment> \<open>\<open>\w\<close>\<close>
  "wordR = [(CHR ''A'', CHR ''Z''), (CHR ''a'', CHR ''z''), (CHR ''0'', CHR ''9''), ch (CHR ''_'')]"

definition spaceR :: "(char \<times> char) list" where
  \<comment> \<open>\<open>\s\<close> on the code units \<open>0..255\<close>: tab, line feed, vertical tab, form feed,
      carriage return, space and the no-break space.\<close>
  "spaceR = [(CHR 0x09, CHR 0x0D), ch (CHR '' ''), ch (CHR 0xA0)]"

definition upperC :: regex where "upperC = Cls upperR"
definition lowerC :: regex where "lowerC = Cls lowerR"
definition digitC :: regex where "digitC = Cls digitR"
definition wordC :: regex where "wordC = Cls wordR"
definition spaceC :: regex where "spaceC = Cls spaceR"
definition upperDigitC :: regex where "upperDigitC = Cls (upperR @ digitR)"
definition hexC :: regex where
  "hexC = Cls [(CHR ''A'', CHR ''F''), (CHR ''a'', CHR ''f''), (CHR ''0'', CHR ''9'')]"
definition sepC :: regex where
  \<comment> \<open>\<open>[-\s.]\<close>, also written \<open>[-.\s]\<close>\<close>
  "sepC = Cls (ch (CHR ''-'') # spaceR @ [ch (CHR ''.'')])"
definition slashDashC :: regex where
  \<comment> \<open>\<open>[\/\-]\<close>\<close>
  "slashDashC = Cls [ch (CHR ''/''), ch (CHR ''-'')]"
definition capWord :: "nat \<Rightarrow> regex" where
  \<comment> \<open>\<open>[A-Z][a-z]{n,}\<close>\<close>
  "capWord n = Seq upperC (rxAtLeast n lowerC)"


subsection \<open>Validators\<close>

definition isDigit :: "char \<Rightarrow> bool" where
  "isDigit c = inRange c (CHR ''0'', CHR ''9'')"

definition digitsOf :: "string \<Rightarrow> nat list" where
  \<comment> \<open>\<open>numberStr.replace(/\D/g, '').split('').map(Number)\<close>\<close>
  "digitsOf numberStr = map (\<lambda>c. code c - 48) (filter isDigit numberStr)"

definition luhnStep :: "nat \<Rightarrow> nat \<Rightarrow> nat \<Rightarrow> nat" where
  \<comment> \<open>The body of the loop: the value that digit \<open>digit\<close> at index \<open>i\<close> adds.\<close>
  "luhnStep parity i digit =
     (if i mod 2 = parity
      then (let doubled = digit * 2 in if doubled > 9 then doubled - 9 else doubled)
      else digit)"

function luhnLoop :: "nat list \<Rightarrow> nat \<Rightarrow> nat \<Rightarrow> nat \<Rightarrow> nat" where
  "luhnLoop digits parity i checksum =
     (if i < length digits
      then luhnLoop digits parity (i + 1) (checksum + luhnStep parity i (digits ! i))
      else checksum)"
  by pat_completeness auto
termination
  by (relation "measure (\<lambda>(digits, parity, i, checksum). length digits - i)") auto

definition luhnCheck :: "string \<Rightarrow> bool" where
  "luhnCheck numberStr =
     (let digits = digitsOf numberStr in
      if length digits < 13 \<or> length digits > 19 then False
      else luhnLoop digits (length digits mod 2) 0 0 mod 10 = 0)"

definition jsonStructureWords :: "string list" where
  "jsonStructureWords = [
    ''timestamp'', ''data_source'', ''purpose'', ''records'', ''metadata'',
    ''test_dataset'', ''record_id'', ''data_classification'', ''contains_pii'',
    ''pii_types'', ''compliance_notes'', ''gdpr_applicable'', ''ccpa_applicable'',
    ''hipaa_applicable'', ''total_records'', ''order_number'', ''external_order_id'',
    ''order_date'', ''order_status'', ''order_total'', ''tax_amount'', ''shipping_amount'',
    ''discount_amount'', ''customer_id'', ''loyalty_member'', ''loyalty_tier'',
    ''billing_address'', ''shipping_address'', ''address_line_1'', ''address_line_2'',
    ''postal_code'', ''country'', ''shipments'', ''shipment_id'', ''tracking_number'',
    ''carrier'', ''carrier_service'', ''ship_date'', ''estimated_delivery_date'',
    ''actual_delivery_date'', ''shipment_status'', ''tracking_url'', ''shipped_from'',
    ''facility_name'', ''tracking_events'', ''event_date'', ''event_type'', ''location'',
    ''description'', ''carrier_event_code'', ''delivery_instructions'',
    ''signature_required'', ''insurance_value'', ''returns'', ''return_id'',
    ''return_date'', ''return_status'', ''return_reason'', ''return_type'',
    ''refund_amount'', ''return_shipping_label'', ''notifications'',
    ''order_confirmation_sent'', ''shipping_notification_sent'',
    ''delivery_notification_sent'', ''sms_enabled'', ''email_enabled'',
    ''push_notifications_enabled'', ''custom_attributes'', ''source_channel'',
    ''marketing_campaign'', ''gift_order'', ''priority_shipping'', ''customer_notes'',
    ''internal_notes'', ''payment_info'', ''payment_method'', ''card_type'', ''last_four'',
    ''payment_status'', ''transaction_id'', ''fulfillment_location'', ''warehouse_id'',
    ''warehouse_name'', ''created_at'', ''updated_at'', ''tags'', ''api_version'',
    ''request_id'', ''retailer_id'', ''environment'', ''items'', ''sku'', ''product_id'',
    ''name'', ''description'', ''quantity'', ''unit_price'', ''total_price'', ''category'',
    ''subcategory'', ''brand'', ''size'', ''color'', ''weight'', ''dimensions'',
    ''length'', ''width'', ''height'', ''unit'', ''image_url'', ''product_url'',
    ''gift_message'', ''customization'', ''monogram'', ''thread_color'', ''condition'',
    ''label_url'', ''amount'', ''currency'', ''value'', ''shipped'', ''in_transit'',
    ''delivered'', ''pending'', ''approved'', ''rejected'', ''completed'', ''processing'',
    ''canceled'', ''returned'', ''exchange'', ''refund'', ''website'', ''mobile_app'',
    ''phone'', ''email'', ''chat'', ''false'', ''true'', ''inches'', ''lbs'', ''kg'',
    ''cm'', ''cotton'', ''classic'', ''premium'', ''medium'', ''large'', ''small'',
    ''blue'', ''navy'', ''indigo'', ''black'', ''white'', ''red'', ''green'', ''front'',
    ''back'', ''door'', ''facility'', ''package'', ''arrived'', ''departed'', ''wrong'',
    ''size'', ''color'', ''style'', ''fit'', ''button'', ''down'', ''shirt'', ''jeans'',
    ''denim'', ''straight'', ''production'', ''development'', ''staging'']"

definition quoteStr :: string where
  "quoteStr = [CHR 0x22]"

definition quoteColonStr :: string where
  "quoteColonStr = [CHR 0x22, CHR '':'']"

definition isJsonStructure :: "string \<Rightarrow> string \<Rightarrow> string \<Rightarrow> bool" where
  "isJsonStructure before match after =
     (if endsWith before quoteStr \<and> startsWith after quoteColonStr then True
      else if toLowerCase match \<in> set jsonStructureWords
              \<and> endsWith before quoteStr \<and> startsWith after quoteColonStr then True
      else False)"

definition commonWords :: "string list" where
  "commonWords = [
    ''Visa'', ''Card'', ''Type'', ''Status'', ''Date'', ''Code'', ''Number'', ''Amount'',
    ''Total'', ''Order'', ''Customer'', ''Address'', ''Phone'', ''Email'', ''Payment'',
    ''Shipping'', ''Product'', ''Items'', ''Description'', ''Category'', ''Brand'',
    ''Size'', ''Color'', ''Weight'', ''Value'', ''Unit'', ''Quantity'', ''Price'',
    ''Image'', ''Location'', ''Classic'', ''Blue'', ''Cotton'', ''Shirt'', ''Navy'',
    ''Medium'', ''Large'', ''Small'', ''Indigo'', ''Denim'', ''Jeans'', ''Premium'',
    ''Black'', ''White'', ''Red'', ''Green'', ''Gold'', ''Silver'', ''Style'',
    ''Clothing'', ''Shirts'', ''Button'', ''Down'', ''Straight'', ''Fit'', ''Thread'',
    ''Fabric'', ''Material'', ''Design'', ''Shipped'', ''Delivered'', ''Pending'',
    ''Approved'', ''Completed'', ''Processing'', ''Canceled'', ''Returned'', ''Transit'',
    ''Ground'', ''Express'', ''Standard'', ''Distribution'', ''Center'', ''East'',
    ''West'', ''North'', ''South'', ''Warehouse'', ''Facility'', ''Package'', ''Carrier'',
    ''Service'', ''Ground'', ''Air'', ''Inches'', ''Pounds'', ''Ounces'', ''Grams'',
    ''Kilograms'', ''Length'', ''Width'', ''Height'', ''Gift'', ''Message'', ''Notes'',
    ''Tags'', ''Summer'', ''Winter'', ''Collection'', ''Sale'', ''Campaign'', ''Website'',
    ''Mobile'', ''App'', ''Chat'', ''Support'', ''Help'', ''Production'', ''Development'',
    ''Staging'', ''Environment'', ''Version'', ''Request'']"

definition isCommonWord :: "string \<Rightarrow> bool" where
  "isCommonWord word = (word \<in> set commonWords)"

subsection \<open>The category registry\<close>

record pii =
  pattern :: regexp
  priority :: nat
  requiresLuhn :: bool
  contextAware :: bool

definition category :: "regex \<Rightarrow> bool \<Rightarrow> nat \<Rightarrow> pii" where
  \<comment> \<open>A registry entry with the flags \<open>g\<close> (always) and \<open>i\<close> (when \<open>ic\<close>); the two
      validator flags are absent from an entry unless it sets them.\<close>
  "category r ic p =
     \<lparr>pattern = \<lparr>source = r, global = True, ignoreCase = ic\<rparr>, priority = p,
      requiresLuhn = False, contextAware = False\<rparr>"

definition emailRx :: regex where
  "emailRx = cat [WordB,
     rxPlus (Cls (upperR @ lowerR @ digitR @ map ch ''._%+-'')),
     Lit CHR ''@'',
     rxPlus (Cls (upperR @ lowerR @ digitR @ map ch ''.-'')),
     Lit CHR ''.'',
     rxAtLeast 2 (Cls (upperR @ [ch CHR ''|''] @ lowerR)),
     WordB]"

definition ssnRx :: regex where
  "ssnRx = cat [WordB,
     NotAhead (alts [str ''000'', str ''666'', cat [Lit CHR ''9'', digitC, digitC]]),
     rxTimes 3 digitC, rxOpt sepC,
     NotAhead (str ''00''), rxTimes 2 digitC, rxOpt sepC,
     NotAhead (str ''0000''), rxTimes 4 digitC,
     WordB]"

definition phoneRx :: regex where
  "phoneRx = cat [WordB,
     rxOpt (cat [str ''+1'', rxOpt sepC]),
     cat [rxOpt (Lit CHR ''(''), rxTimes 3 digitC, rxOpt (Lit CHR '')''), rxOpt sepC],
     rxTimes 3 digitC, rxOpt sepC, rxTimes 4 digitC,
     WordB]"

definition creditCardRx :: regex where
  "creditCardRx = cat [WordB,
     rxBetween 13 19 (cat [digitC, rxLazyStar (Cls (map ch '' -''))]),
     WordB]"

definition urlRx :: regex where
  "urlRx = cat [str ''http'', rxOpt (Lit CHR ''s''), str ''://'',
     rxPlus (Cls (ch CHR ''-'' # wordR @ [ch CHR ''.''])),
     rxOpt (rxPlus (Cls (ch CHR '':'' # digitR))),
     rxOpt (cat [Lit CHR ''/'',
       rxStar (Cls (wordR @ map ch ''/_.'')),
       rxOpt (cat [Lit CHR ''?'', rxStar (Cls (wordR @ map ch ''&=%.''))]),
       rxOpt (cat [Lit CHR ''#'', rxStar wordC])])]"

definition octetRx :: regex where
  \<comment> \<open>\<open>(?:25[0-5]|2[0-4]\d|1?\d?\d)\<close>\<close>
  "octetRx = alts [cat [str ''25'', Cls [(CHR ''0'', CHR ''5'')]],
                   cat [Lit CHR ''2'', Cls [(CHR ''0'', CHR ''4'')], digitC],
                   cat [rxOpt (Lit CHR ''1''), rxOpt digitC, digitC]]"

definition ipv4AddressRx :: regex where
  "ipv4AddressRx = cat [WordB, rxTimes 3 (cat [octetRx, Lit CHR ''.'']), octetRx, WordB]"

definition ipv6AddressRx :: regex where
  "ipv6AddressRx = cat [WordB, rxTimes 7 (cat [rxBetween 1 4 hexC, Lit CHR '':'']),
     rxBetween 1 4 hexC, WordB]"

definition taxIdRx :: regex where
  "taxIdRx = cat [WordB, rxTimes 2 digitC, Lit CHR ''-'', rxTimes 7 digitC, WordB]"

definition employeeIdRx :: regex where
  "employeeIdRx = cat [WordB,
     alts [str ''EMP'', str ''STU'', str ''PAT'', str ''CS'', str ''GOV''],
     Lit CHR ''-'', rxTimes 4 digitC, Lit CHR ''-'', rxBetween 3 5 digitC, WordB]"

definition alphanumericIdRx :: regex where
  "alphanumericIdRx = cat [WordB, rxBetween 2 4 upperC, Lit CHR ''-'', rxBetween 5 10 digitC, WordB]"

definition accountNumberRx :: regex where
  "accountNumberRx = cat [WordB, rxBetween 8 16 upperDigitC, WordB]"

definition routingNumberRx :: regex where
  "routingNumberRx = cat [WordB, rxTimes 9 digitC, WordB]"

definition nameRx :: regex where
  "nameRx = cat [WordB,
     alts [cat [str ''Dr'', rxOpt (Lit CHR ''.''), rxPlus spaceC],
           cat [str ''Mr'', rxOpt (Lit CHR ''.''), rxPlus spaceC],
           cat [str ''Mrs'', rxOpt (Lit CHR ''.''), rxPlus spaceC],
           cat [str ''Ms'', rxOpt (Lit CHR ''.''), rxPlus spaceC],
           cat [str ''Prof'', rxOpt (Lit CHR ''.''), rxPlus spaceC]],
     capWord 2,
     rxPlus (cat [rxPlus spaceC, capWord 2]),
     rxStar (cat [rxPlus spaceC, capWord 2]),
     rxOpt (cat [rxPlus spaceC,
       alts [cat [str ''Jr'', rxOpt (Lit CHR ''.'')], cat [str ''Sr'', rxOpt (Lit CHR ''.'')],
             cat [str ''II'', rxOpt (Lit CHR ''I'')], str ''IV'']]),
     WordB]"

definition firstNameRx :: regex where
  "firstNameRx = cat [WordB, upperC, rxBetween 2 15 lowerC, WordB]"

definition companyNameRx :: regex where
  "companyNameRx = cat [WordB, capWord 1,
     rxStar (cat [rxPlus spaceC, capWord 1]),
     rxPlus spaceC,
     alts (map str [''LLC'', ''Inc'', ''Corp'', ''Corporation'', ''Company'', ''Co'', ''Ltd'',
       ''Limited'', ''University'', ''Institute'', ''College'', ''Hospital'', ''Medical'',
       ''Center'', ''Health'', ''Bank'', ''Insurance'', ''Group'', ''Board'', ''Technology'',
       ''Academy'', ''School'']),
     WordB]"

definition addressRx :: regex where
  "addressRx = cat [WordB, rxPlus digitC, rxPlus spaceC,
     rxPlus (Cls (upperR @ lowerR @ digitR @ spaceR @ [ch CHR '','']))  ,
     alts (map str [''Street'', ''St'', ''Avenue'', ''Ave'', ''Road'', ''Rd'', ''Boulevard'',
       ''Blvd'', ''Drive'', ''Dr'', ''Lane'', ''Ln'', ''Way'', ''Circle'', ''Cir'', ''Plaza'',
       ''Court'', ''Ct'', ''Highway'', ''Hwy'']),
     WordB]"

definition dateRx :: regex where
  "dateRx = cat [WordB,
     alts [cat [rxBetween 1 2 digitC, slashDashC, rxBetween 1 2 digitC, slashDashC,
                rxBetween 2 4 digitC],
           cat [rxTimes 4 digitC, slashDashC, rxBetween 1 2 digitC, slashDashC,
                rxBetween 1 2 digitC],
           cat [alts (map str [''Jan'', ''Feb'', ''Mar'', ''Apr'', ''May'', ''Jun'', ''Jul'',
                  ''Aug'', ''Sep'', ''Oct'', ''Nov'', ''Dec'']),
                rxStar lowerC, rxPlus spaceC, rxBetween 1 2 digitC, rxOpt (Lit CHR '',''),
                rxPlus spaceC, rxTimes 4 digitC]],
     WordB]"

definition zipCodeRx :: regex where
  "zipCodeRx = cat [WordB, rxTimes 5 digitC, rxOpt (cat [Lit CHR ''-'', rxTimes 4 digitC]), WordB]"

definition extensionRx :: regex where
  "extensionRx = cat [WordB, str ''extension'', rxPlus spaceC, rxBetween 3 4 digitC, WordB]"

definition cityStateRx :: regex where
  "cityStateRx = cat [WordB, capWord 4, Lit CHR '','', rxStar spaceC, capWord 4, Lit CHR '','',
     rxStar spaceC, str ''USA'', WordB]"

definition passportRx :: regex where
  "passportRx = cat [WordB, rxBetween 2 3 upperC, rxBetween 8 9 digitC, WordB]"

definition hexPair :: regex where
  \<comment> \<open>\<open>[0-9A-Fa-f]{2}\<close>\<close>
  "hexPair = rxTimes 2 (Cls [(CHR ''0'', CHR ''9''), (CHR ''A'', CHR ''F''), (CHR ''a'', CHR ''f'')])"

definition macAddressRx :: regex where
  "macAddressRx = cat [WordB, hexPair, Lit CHR '':'', hexPair, Lit CHR '':'', hexPair,
     Lit CHR '':'', hexPair, Lit CHR '':'', hexPair, Lit CHR '':'', hexPair, WordB]"

definition usernameRx :: regex where
  "usernameRx = cat [WordB, lowerC,
     rxBetween 6 25 (Cls (lowerR @ digitR @ map ch ''_.'')),
     rxOpt (cat [Lit CHR ''.'', rxBetween 2 15 lowerC]),
     WordB]"

definition medicalLicenseRx :: regex where
  "medicalLicenseRx = cat [WordB, rxTimes 2 upperC, Lit CHR ''-'', rxTimes 2 upperC,
     Lit CHR ''-'', rxBetween 6 12 digitC, WordB]"

definition deaNumberRx :: regex where
  "deaNumberRx = cat [WordB, rxTimes 2 upperC, rxTimes 7 digitC, WordB]"

definition deviceIdRx :: regex where
  "deviceIdRx = cat [WordB, rxTimes 3 upperC, Lit CHR ''-'', rxBetween 3 12 upperDigitC,
     rxBetween 3 12 upperDigitC, WordB]"

definition fingerprintRx :: regex where
  "fingerprintRx = cat [WordB, rxTimes 2 upperC, Lit CHR ''-'', rxBetween 12 18 digitC, WordB]"

definition licenseNumberRx :: regex where
  "licenseNumberRx = cat [WordB, rxTimes 2 upperC, Lit CHR ''-'', rxBetween 2 3 upperC,
     Lit CHR ''-'', rxBetween 6 12 upperDigitC, WordB]"

definition apartmentRx :: regex where
  "apartmentRx = cat [WordB,
     alts (map str [''Apt'', ''Suite'', ''Unit'', ''Apartment'', ''Room'']),
     rxPlus spaceC, rxBetween 1 5 upperDigitC, WordB]"

definition trackingNumberRx :: regex where
  "trackingNumberRx =
     Alt (cat [WordB, str ''1Z'', rxTimes 16 upperDigitC, WordB])
         (cat [WordB, rxBetween 10 30 upperDigitC, WordB])"

definition orderIDRx :: regex where
  "orderIDRx = cat [WordB,
     alts (map str [''ORD'', ''SHOP'', ''CUST'', ''RET'', ''SHIP'', ''TXN'', ''WH'']),
     Cls (map ch ''-_''), rxBetween 4 20 upperDigitC, WordB]"

definition poBoxRx :: regex where
  "poBoxRx = cat [WordB, str ''PO'', rxPlus spaceC, str ''Box'', rxPlus spaceC,
     rxBetween 3 6 digitC, WordB]"

definition piiPatterns :: "(string \<times> pii) list" where
  \<comment> \<open>In declaration order, which is the order \<open>Object.entries\<close> enumerates.\<close>
  "piiPatterns = [
     (''email'', category emailRx False 1),
     (''ssn'', category ssnRx False 2),
     (''phone'', category phoneRx False 3),
     (''creditCard'', (category creditCardRx False 4)\<lparr>requiresLuhn := True\<rparr>),
     (''url'', category urlRx False 5),
     (''ipv4Address'', category ipv4AddressRx False 6),
     (''ipv6Address'', category ipv6AddressRx False 7),
     (''taxId'', category taxIdRx False 8),
     (''employeeId'', category employeeIdRx False 9),
     (''alphanumericId'', category alphanumericIdRx False 10),
     (''accountNumber'', category accountNumberRx False 11),
     (''routingNumber'', category routingNumberRx False 11),
     (''name'', category nameRx False 13),
     (''firstName'', (category firstNameRx False 12)\<lparr>contextAware := True\<rparr>),
     (''companyName'', category companyNameRx False 14),
     (''address'', category addressRx False 15),
     (''date'', category dateRx True 16),
     (''zipCode'', category zipCodeRx False 17),
     (''extension'', category extensionRx True 18),
     (''cityState'', category cityStateRx False 20),
     (''passport'', category passportRx False 21),
     (''macAddress'', category macAddressRx False 22),
     (''username'', category usernameRx False 23),
     (''medicalLicense'', category medicalLicenseRx False 24),
     (''deaNumber'', category deaNumberRx False 25),
     (''deviceId'', category deviceIdRx False 26),
     (''fingerprint'', category fingerprintRx False 27),
     (''licenseNumber'', category licenseNumberRx False 29),
     (''apartment'', category apartmentRx True 34),
     (''trackingNumber'', category trackingNumberRx False 35),
     (''orderID'', category orderIDRx False 36),
     (''poBox'', category poBoxRx True 35)]"

definition effectivePriority :: "pii \<Rightarrow> nat" where
  \<comment> \<open>\<open>priority || 99\<close>\<close>
  "effectivePriority p = (if priority p = 0 then 99 else priority p)"

definition sortedPatterns :: "(string \<times> pii) list" where
  \<comment> \<open>\<open>Object.entries(this.piiPatterns).sort(...)\<close>: the stable sort by priority.\<close>
  "sortedPatterns = sort_key (\<lambda>e. effectivePriority (snd e)) piiPatterns"


subsection \<open>Every match lies inside the text\<close>

text \<open>
  \<open>minLen r\<close> is a lower bound on the number of code units a match of \<open>r\<close> consumes. A
  matcher started inside the text hands on a position inside the text, at least
  \<open>minLen r\<close> further on.
\<close>

fun minLen :: "regex \<Rightarrow> nat" where
  "minLen Eps = 0"
| "minLen (Lit c) = 1"
| "minLen (Cls rs) = 1"
| "minLen WordB = 0"
| "minLen (Seq r1 r2) = minLen r1 + minLen r2"
| "minLen (Alt r1 r2) = min (minLen r1) (minLen r2)"
| "minLen (Rep lo hi g r) = (case hi of None \<Rightarrow> lo | Some h \<Rightarrow> min lo h) * minLen r"
| "minLen (NotAhead r) = 0"

declare matchRx.simps(8) [simp del]

lemma minLen_Rep0 [simp]: "minLen (Rep 0 hi g r) = 0"
  by (cases hi) auto

lemma matchRx_bounds:
  "matchRx ic s r k i = Some e \<Longrightarrow> i \<le> length s \<Longrightarrow>
     \<exists>j. i + minLen r \<le> j \<and> j \<le> length s \<and> k j = Some e"
proof (induction ic s r k i arbitrary: e rule: matchRx.induct)
  case (1 ic s k i)
  then show ?case by auto
next
  case (2 ic s c k i)
  then show ?case by (auto split: if_splits)
next
  case (3 ic s rs k i)
  then show ?case by (auto split: if_splits)
next
  case (4 ic s k i)
  then show ?case by (auto split: if_splits)
next
  case (5 ic s r1 r2 k i)
  from "5.prems" have "matchRx ic s r1 (\<lambda>j. matchRx ic s r2 k j) i = Some e" by simp
  from "5.IH"(2)[OF this "5.prems"(2)]
  obtain j where j: "i + minLen r1 \<le> j" "j \<le> length s" "matchRx ic s r2 k j = Some e" by blast
  from "5.IH"(1)[OF j(3) j(2)]
  obtain j' where "j + minLen r2 \<le> j'" "j' \<le> length s" "k j' = Some e" by blast
  with j show ?case by (intro exI[of _ j']) simp
next
  case (6 ic s r1 r2 k i)
  show ?case
  proof (cases "matchRx ic s r1 k i")
    case None
    with "6.prems" have "matchRx ic s r2 k i = Some e" by simp
    from "6.IH"(2)[OF None this "6.prems"(2)]
    obtain j where "i + minLen r2 \<le> j" "j \<le> length s" "k j = Some e" by blast
    then show ?thesis by (intro exI[of _ j]) simp
  next
    case (Some a)
    with "6.prems" have "matchRx ic s r1 k i = Some e" by simp
    from "6.IH"(1)[OF this "6.prems"(2)]
    obtain j where "i + minLen r1 \<le> j" "j \<le> length s" "k j = Some e" by blast
    then show ?thesis by (intro exI[of _ j]) simp
  qed
next
  case (7 ic s r k i)
  then show ?case by (auto split: option.splits)
next
  case (8 ic s lo hi g r k i)
  note P = "8.prems"(1)[unfolded matchRx.simps(8)[of ic s lo hi g r k i]]
  let ?loop = "\<lambda>j. if i < j \<and> j \<le> length s then matchRx ic s (Rep 0 (decMax hi) g r) k j else None"
  show ?case
  proof (cases "hi = Some 0")
    case True
    with P "8.prems"(2) show ?thesis by auto
  next
    case nz: False
    show ?thesis
    proof (cases "0 < lo")
      case True
      with nz P have "matchRx ic s r (\<lambda>j. matchRx ic s (Rep (lo - 1) (decMax hi) g r) k j) i = Some e"
        by simp
      from "8.IH"(2)[OF nz True this "8.prems"(2)]
      obtain j where j: "i + minLen r \<le> j" "j \<le> length s"
        "matchRx ic s (Rep (lo - 1) (decMax hi) g r) k j = Some e" by blast
      from "8.IH"(1)[OF nz True j(3) j(2)]
      obtain j' where j': "j + minLen (Rep (lo - 1) (decMax hi) g r) \<le> j'" "j' \<le> length s" "k j' = Some e"
        by blast
      have "minLen (Rep lo hi g r) = minLen r + minLen (Rep (lo - 1) (decMax hi) g r)"
      proof -
        from True obtain n where lo: "lo = Suc n" by (cases lo) auto
        show ?thesis
        proof (cases hi)
          case None
          with lo show ?thesis by simp
        next
          case (Some h)
          with nz obtain h' where "h = Suc h'" by (cases h) auto
          with Some lo show ?thesis by simp
        qed
      qed
      with j j' show ?thesis by (intro exI[of _ j']) simp
    next
      case lo0: False
      have ml: "minLen (Rep lo hi g r) = 0" using lo0 by (cases hi) auto
      have viaLoop: "\<exists>j. i \<le> j \<and> j \<le> length s \<and> k j = Some e"
        if st: "matchRx ic s r ?loop i = Some e" and ih: "\<And>j e. i < j \<and> j \<le> length s \<Longrightarrow> matchRx ic s (Rep 0 (decMax hi) g r) k j = Some e \<Longrightarrow> j \<le> length s \<Longrightarrow> \<exists>j'. j + minLen (Rep 0 (decMax hi) g r) \<le> j' \<and> j' \<le> length s \<and> k j' = Some e"
          and ih1: "\<And>e. matchRx ic s r ?loop i = Some e \<Longrightarrow> i \<le> length s \<Longrightarrow> \<exists>j. i + minLen r \<le> j \<and> j \<le> length s \<and> ?loop j = Some e"
      proof -
        from ih1[OF st "8.prems"(2)] obtain j where j: "i + minLen r \<le> j" "j \<le> length s" "?loop j = Some e" by blast
        then have c: "i < j \<and> j \<le> length s" and mm: "matchRx ic s (Rep 0 (decMax hi) g r) k j = Some e"
          by (auto split: if_splits)
        from ih[OF c mm j(2)] obtain j' where a: "j + minLen (Rep 0 (decMax hi) g r) \<le> j'"
          and b: "j' \<le> length s" "k j' = Some e" by blast
        from a have "j \<le> j'" by linarith
        with b c show ?thesis by (intro exI[of _ j']) simp
      qed
      show ?thesis
      proof (cases g)
        case True
        show ?thesis
        proof (cases "matchRx ic s r ?loop i")
          case None
          with nz lo0 True P have "k i = Some e" by simp
          then show ?thesis unfolding ml using "8.prems"(2) by auto
        next
          case (Some a)
          with nz lo0 True P have st: "matchRx ic s r ?loop i = Some e" by simp
          have "\<exists>j. i \<le> j \<and> j \<le> length s \<and> k j = Some e"
            apply (rule viaLoop[OF st])
            using "8.IH"(3)[OF nz lo0 True] apply blast
            using "8.IH"(4)[OF nz lo0 True] apply blast
            done
          then show ?thesis unfolding ml by simp
        qed
      next
        case False
        show ?thesis
        proof (cases "k i")
          case (Some a)
          with nz lo0 False P have "k i = Some e" by simp
          then show ?thesis unfolding ml using "8.prems"(2) by auto
        next
          case None
          with nz lo0 False P have st: "matchRx ic s r ?loop i = Some e" by simp
          have "\<exists>j. i \<le> j \<and> j \<le> length s \<and> k j = Some e"
            apply (rule viaLoop[OF st])
            using "8.IH"(5)[OF nz lo0 False None] apply blast
            using "8.IH"(6)[OF nz lo0 False None] apply blast
            done
          then show ?thesis unfolding ml by simp
        qed
      qed
    qed
  qed
qed


declare execFrom.simps [simp del]

lemma execFrom_bounds:
  "execFrom ic r s i = Some (idx, e) \<Longrightarrow>
     i \<le> idx \<and> idx + minLen r \<le> e \<and> e \<le> length s \<and> matchRx ic s r Some idx = Some e"
proof (induction ic r s i rule: execFrom.induct)
  case (1 ic r s i)
  note unf = execFrom.simps[of ic r s i]
  show ?case
  proof (cases "length s < i")
    case True
    with "1.prems" unf show ?thesis by simp
  next
    case inside: False
    show ?thesis
    proof (cases "matchRx ic s r Some i")
      case None
      with inside "1.prems" unf have "execFrom ic r s (i + 1) = Some (idx, e)" by simp
      from "1.IH"[OF inside None this] show ?thesis by simp
    next
      case (Some e')
      with inside "1.prems" unf have eq: "idx = i" "e = e'" by simp_all
      from inside have "i \<le> length s" by simp
      from matchRx_bounds[OF Some this] have "i + minLen r \<le> e'" "e' \<le> length s" by auto
      with eq Some show ?thesis by simp
    qed
  qed
qed

lemma regexExec_bounds:
  "regexExec rx s lastIndex = Some (idx, e) \<Longrightarrow>
     idx + minLen (source rx) \<le> e \<and> e \<le> length s \<and> (global rx \<longrightarrow> lastIndex \<le> idx)"
  unfolding regexExec_def by (auto dest: execFrom_bounds split: if_splits)

subsection \<open>The detector\<close>

record match =
  m_text :: string
  m_index :: nat

record detection =
  d_matches :: "match list"
  d_count :: nat

type_synonym detected = "(string \<times> detection) list"

text \<open>
  The \<open>while\<close> loop over \<open>regex.exec\<close>, which \<open>processStandardText\<close> and \<open>processChunk\<close>
  both contain: the two copies differ only in the offset that \<open>processChunk\<close> adds to
  \<open>match.index\<close>, so the loop is written once, with the offset as a parameter
  (\<open>0\<close> for \<open>processStandardText\<close>). The state of the loop is \<open>regex.lastIndex\<close> and the
  array \<open>matches\<close>. With the \<open>g\<close> flag \<open>exec\<close> leaves \<open>lastIndex\<close> at the end of the match;
  when that does not move \<open>lastIndex\<close> forward (an empty match where the last search
  began), the next call finds the same match and the loop never ends: the result is
  \<open>None\<close>. Without the \<open>g\<close> flag every path through the body ends in \<open>break\<close>.
\<close>

definition acceptMatch :: "string \<Rightarrow> pii \<Rightarrow> string \<Rightarrow> nat \<Rightarrow> nat \<Rightarrow> nat \<Rightarrow> match list \<Rightarrow> match list" where
  \<comment> \<open>The body of the loop for the candidate \<open>match[0] = txt.substring(idx, e)\<close>: the
      array \<open>matches\<close> after it.\<close>
  "acceptMatch key pii txt offset idx e matches =
     (let found = substring txt idx e;
          beforeMatch = substring txt (idx - 10) idx;
          afterMatch = substring txt (idx + length found) (idx + length found + 10)
      in if isJsonStructure beforeMatch found afterMatch then matches
         else if contextAware pii \<and> isCommonWord found then matches
         else if key = ''creditCard'' \<and> requiresLuhn pii then
           (if luhnCheck found then matches @ [\<lparr>m_text = found, m_index = idx + offset\<rparr>]
            else matches)
         else matches @ [\<lparr>m_text = found, m_index = idx + offset\<rparr>])"

function scanMatches :: "string \<Rightarrow> pii \<Rightarrow> string \<Rightarrow> nat \<Rightarrow> nat \<Rightarrow> match list \<Rightarrow> match list option" where
  "scanMatches key pii txt offset lastIndex matches =
     (case regexExec (pattern pii) txt lastIndex of
        None \<Rightarrow> Some matches
      | Some (idx, e) \<Rightarrow>
          if \<not> global (pattern pii) then Some (acceptMatch key pii txt offset idx e matches)
          else if e \<le> lastIndex then None
          else scanMatches key pii txt offset e (acceptMatch key pii txt offset idx e matches))"
  by pat_completeness auto
termination
  by (relation "measure (\<lambda>(key, pii, txt, offset, lastIndex, matches). length txt - lastIndex)")
     (auto dest!: regexExec_bounds)

declare scanMatches.simps [simp del]

definition assign :: "detected \<Rightarrow> string \<Rightarrow> detection \<Rightarrow> detected" where
  \<comment> \<open>\<open>obj[key] = v\<close>: an existing key keeps its place, a new key goes last.\<close>
  "assign dp key v =
     (if key \<in> set (map fst dp) then map (\<lambda>(k, d). if k = key then (k, v) else (k, d)) dp
      else dp @ [(key, v)])"

fun detectStandard :: "(string \<times> pii) list \<Rightarrow> string \<Rightarrow> detected \<Rightarrow> detected option" where
  \<comment> \<open>\<open>sortedPatterns.forEach(...)\<close> of \<open>processStandardText\<close>\<close>
  "detectStandard [] inputText dp = Some dp"
| "detectStandard ((key, pii) # rest) inputText dp =
     (case scanMatches key pii inputText 0 0 [] of
        None \<Rightarrow> None
      | Some matches \<Rightarrow>
          detectStandard rest inputText
            (if length matches > 0
             then assign dp key \<lparr>d_matches = matches, d_count = length matches\<rparr>
             else dp))"

definition processStandardText :: "detected \<Rightarrow> string \<Rightarrow> detected option" where
  \<comment> \<open>The argument \<open>dp\<close> is \<open>this.detectedPII\<close> on entry (\<open>analyzeText\<close> has reset it to
      \<open>{}\<close>), the result is \<open>this.detectedPII\<close> on exit.\<close>
  "processStandardText dp inputText = detectStandard sortedPatterns inputText dp"

record chunk =
  c_text :: string
  c_offset :: nat

definition addMatches :: "detected \<Rightarrow> string \<Rightarrow> match list \<Rightarrow> detected" where
  \<comment> \<open>Create the entry \<open>{matches: [], count: 0}\<close> when the key has none, then push the
      matches and add their number to the count.\<close>
  "addMatches dp key matches =
     (let dp' = (if map_of dp key = None then assign dp key \<lparr>d_matches = [], d_count = 0\<rparr> else dp)
      in case map_of dp' key of
           None \<Rightarrow> dp'
         | Some d \<Rightarrow> assign dp' key \<lparr>d_matches = d_matches d @ matches,
                                       d_count = d_count d + length matches\<rparr>)"

fun detectChunk :: "(string \<times> pii) list \<Rightarrow> chunk \<Rightarrow> detected \<Rightarrow> detected option" where
  \<comment> \<open>\<open>sortedPatterns.forEach(...)\<close> of \<open>processChunk\<close>\<close>
  "detectChunk [] chunk dp = Some dp"
| "detectChunk ((key, pii) # rest) chunk dp =
     (case scanMatches key pii (c_text chunk) (c_offset chunk) 0 [] of
        None \<Rightarrow> None
      | Some matches \<Rightarrow>
          detectChunk rest chunk (if length matches > 0 then addMatches dp key matches else dp))"

definition processChunk :: "chunk \<Rightarrow> bool \<Rightarrow> detected \<Rightarrow> detected option" where
  "processChunk chunk resetData dp = detectChunk sortedPatterns chunk (if resetData then [] else dp)"

definition chunkSize :: nat where
  "chunkSize = 10000"

definition overlap :: nat where
  "overlap = 500"

function makeChunks :: "string \<Rightarrow> nat \<Rightarrow> chunk list" where
  \<comment> \<open>The first \<open>for\<close> loop of \<open>processLargeText\<close>, from loop variable \<open>i\<close> on.\<close>
  "makeChunks inputText i =
     (if i < length inputText
      then \<lparr>c_text = slice inputText i (min (i + chunkSize) (length inputText)), c_offset = i\<rparr>
             # makeChunks inputText (i + (chunkSize - overlap))
      else [])"
  by pat_completeness auto
termination
  by (relation "measure (\<lambda>(inputText, i). length inputText - i)")
     (auto simp: chunkSize_def overlap_def)

declare makeChunks.simps [simp del]

fun digitChar :: "nat \<Rightarrow> char" where
  "digitChar d = char_of (48 + d)"

function decimal :: "nat \<Rightarrow> string" where
  \<comment> \<open>The decimal numeral of a non-negative integer, as a template literal prints it.\<close>
  "decimal n = (if n < 10 then [digitChar n] else decimal (n div 10) @ [digitChar (n mod 10)])"
  by pat_completeness auto
termination
  by (relation "measure id") auto

declare decimal.simps [simp del]

definition matchIdentifier :: "match \<Rightarrow> string" where
  \<comment> \<open>\<open>`${match.index}-${match.text}`\<close>\<close>
  "matchIdentifier m = decimal (m_index m) @ ''-'' @ m_text m"

fun uniqueLoop :: "match list \<Rightarrow> string set \<Rightarrow> match list \<Rightarrow> match list" where
  \<comment> \<open>\<open>data.matches.forEach(...)\<close> of \<open>deduplicateMatches\<close>, with the state \<open>seen\<close> and
      \<open>uniqueMatches\<close>.\<close>
  "uniqueLoop [] seen uniqueMatches = uniqueMatches"
| "uniqueLoop (m # ms) seen uniqueMatches =
     (if matchIdentifier m \<notin> seen
      then uniqueLoop ms (insert (matchIdentifier m) seen) (uniqueMatches @ [m])
      else uniqueLoop ms seen uniqueMatches)"

definition deduplicateEntry :: "detection \<Rightarrow> detection" where
  "deduplicateEntry d =
     (let uniqueMatches = uniqueLoop (d_matches d) {} []
      in d\<lparr>d_matches := uniqueMatches, d_count := length uniqueMatches\<rparr>)"

definition deduplicateMatches :: "detected \<Rightarrow> detected" where
  "deduplicateMatches dp = map (\<lambda>(key, d). (key, deduplicateEntry d)) dp"

fun runChunks :: "chunk list \<Rightarrow> nat \<Rightarrow> detected \<Rightarrow> detected option" where
  \<comment> \<open>The second \<open>for\<close> loop of \<open>processLargeText\<close>, from loop variable \<open>i\<close> on.\<close>
  "runChunks [] i dp = Some dp"
| "runChunks (c # cs) i dp =
     (case processChunk c (i = 0) dp of
        None \<Rightarrow> None
      | Some dp' \<Rightarrow> runChunks cs (i + 1) dp')"

definition processLargeText :: "detected \<Rightarrow> string \<Rightarrow> detected option" where
  "processLargeText dp inputText =
     (case runChunks (makeChunks inputText 0) 0 dp of
        None \<Rightarrow> None
      | Some dp' \<Rightarrow> Some (deduplicateMatches dp'))"


subsection \<open>The transformer\<close>

text \<open>
  \<open>getSecurityLevel\<close> reads \<open>levels[method]\<close> from an object literal. A property read
  follows the prototype chain, so a method string that names a member of
  \<open>Object.prototype\<close> yields that member (a function or an object, which is truthy)
  instead of \<open>undefined\<close>: \<open>JsInherited\<close> stands for such a value.
\<close>

datatype js_value = JsString string | JsInherited string

definition levels :: "(string \<times> string) list" where
  "levels = [(''encrypt'', ''High (Demo Only)''), (''hash'', ''High''),
             (''redact'', ''Medium''), (''mask'', ''Low'')]"

definition objectPrototypeKeys :: "string list" where
  "objectPrototypeKeys = [''constructor'', ''hasOwnProperty'', ''isPrototypeOf'',
     ''propertyIsEnumerable'', ''toLocaleString'', ''toString'', ''valueOf'', ''__proto__'',
     ''__defineGetter__'', ''__defineSetter__'', ''__lookupGetter__'', ''__lookupSetter__'']"

definition getSecurityLevel :: "string \<Rightarrow> js_value" where
  \<comment> \<open>\<open>levels[method] || 'None'\<close>\<close>
  "getSecurityLevel method =
     (case map_of levels method of
        Some v \<Rightarrow> if v = [] then JsString ''None'' else JsString v
      | None \<Rightarrow>
          if method \<in> set objectPrototypeKeys then JsInherited method else JsString ''None'')"

record processedData =
  originalCount :: nat
  processedCount :: nat
  p_method :: string
  securityLevel :: js_value

record tool =
  detectedPII :: detected
  enabledTypes :: "string list"
  processedText :: string
  processedDataOf :: "processedData option"

text \<open>
  The crypto provider (\<open>secureHash\<close>, \<open>secureEncrypt\<close> and their fallbacks) rests on the
  Web Crypto API and on fresh random salts and nonces; it is a parameter. The number
  passed to \<open>secureEncrypt\<close> is the number of replacements made before the call, so that
  two calls on the same text may differ, as they do with fresh randomness.
\<close>

record crypto =
  secureHash :: "string \<Rightarrow> string"
  secureEncrypt :: "nat \<Rightarrow> string \<Rightarrow> string \<Rightarrow> string"

definition enabledMatches :: "detected \<Rightarrow> string list \<Rightarrow> match list" where
  \<comment> \<open>\<open>allMatches\<close> before it is sorted.\<close>
  "enabledMatches dp enabled =
     concat (map (\<lambda>(type, data). if type \<in> set enabled then d_matches data else []) dp)"

definition sortByIndexDesc :: "match list \<Rightarrow> match list" where
  \<comment> \<open>\<open>allMatches.sort((a, b) => b.index - a.index)\<close>: the stable sort, largest index
      first.\<close>
  "sortByIndexDesc ms = sort_key (\<lambda>m. - int (m_index m)) ms"

definition replacementFor :: "crypto \<Rightarrow> nat \<Rightarrow> string \<Rightarrow> string \<Rightarrow> match \<Rightarrow> string" where
  \<comment> \<open>The \<open>switch (method)\<close>.\<close>
  "replacementFor cr n method password m =
     (if method = ''mask'' then replicate (length (m_text m)) CHR ''*''
      else if method = ''hash'' then ''[HASH:'' @ secureHash cr (m_text m) @ '']''
      else if method = ''encrypt'' then secureEncrypt cr n (m_text m) password
      else if method = ''redact'' then ''[REDACTED]''
      else m_text m)"

definition spliceAt :: "string \<Rightarrow> match \<Rightarrow> string \<Rightarrow> string" where
  \<comment> \<open>\<open>processedText.slice(0, start) + replacement + processedText.slice(end)\<close>\<close>
  "spliceAt processed m replacement =
     (let start = m_index m; stop = start + length (m_text m)
      in slice processed 0 start @ replacement @ sliceFrom processed stop)"

fun spliceLoop :: "crypto \<Rightarrow> string \<Rightarrow> string \<Rightarrow> match list \<Rightarrow> string \<Rightarrow> nat \<Rightarrow> string \<times> nat" where
  \<comment> \<open>\<open>for (const match of allMatches)\<close>, with the state \<open>processedText\<close> and
      \<open>processedCount\<close>.\<close>
  "spliceLoop cr method password [] processed n = (processed, n)"
| "spliceLoop cr method password (m # ms) processed n =
     spliceLoop cr method password ms
       (spliceAt processed m (replacementFor cr n method password m)) (n + 1)"

definition applyEncryption :: "crypto \<Rightarrow> tool \<Rightarrow> string \<Rightarrow> string \<Rightarrow> string \<Rightarrow> string \<times> tool" where
  \<comment> \<open>Returns the processed text and the tool with \<open>this.processedData\<close> set.\<close>
  "applyEncryption cr st txt method password =
     (let originalCount = sum_list (map (\<lambda>(type, data). d_count data) (detectedPII st));
          allMatches = sortByIndexDesc (enabledMatches (detectedPII st) (enabledTypes st));
          (processed, n) = spliceLoop cr method password allMatches txt 0
      in (processed,
          st\<lparr>processedDataOf := Some \<lparr>originalCount = originalCount, processedCount = n,
                                       p_method = method,
                                       securityLevel = getSecurityLevel method\<rparr>\<rparr>))"

definition isSpaceChar :: "char \<Rightarrow> bool" where
  "isSpaceChar c = list_ex (inRange c) spaceR"

definition trim :: "string \<Rightarrow> string" where
  "trim s = rev (dropWhile isSpaceChar (rev (dropWhile isSpaceChar s)))"

datatype policy = PasswordRequired | PasswordTooShort

datatype error =
    EmptyInputError
  | NothingDetectedError
  | PolicyError policy
  | NoCategoriesEnabledWarning

definition enabledCount :: "tool \<Rightarrow> nat" where
  \<comment> \<open>\<open>Array.from(this.enabledTypes).reduce(...)\<close>\<close>
  "enabledCount st =
     sum_list (map (\<lambda>type. case map_of (detectedPII st) type of
                               None \<Rightarrow> 0 | Some data \<Rightarrow> d_count data) (enabledTypes st))"

definition processText :: "crypto \<Rightarrow> tool \<Rightarrow> string \<Rightarrow> string \<Rightarrow> string \<Rightarrow> tool \<times> error option" where
  \<comment> \<open>The arguments after the tool are the values of the input, method and password
      fields. The result is the tool afterwards and the error reported, if any; on every
      error path the source returns before it writes to \<open>this\<close>.\<close>
  "processText cr st inputValue methodValue passwordValue =
     (let inputText = trim inputValue;
          method = (if methodValue = [] then ''mask'' else methodValue);
          password = passwordValue
      in if inputText = [] then (st, Some EmptyInputError)
         else if detectedPII st = [] then (st, Some NothingDetectedError)
         else if method = ''encrypt'' \<and> password = [] then (st, Some (PolicyError PasswordRequired))
         else if method = ''encrypt'' \<and> length password < 8
           then (st, Some (PolicyError PasswordTooShort))
         else if enabledCount st = 0 then (st, Some NoCategoriesEnabledWarning)
         else (let (processed, st') = applyEncryption cr st inputText method password
               in (st'\<lparr>processedText := processed\<rparr>, None)))"

definition analyzeText :: "tool \<Rightarrow> string \<Rightarrow> (tool \<times> error option) option" where
  \<comment> \<open>\<open>None\<close> when the scan does not return.\<close>
  "analyzeText st inputValue =
     (let inputText = trim inputValue
      in if inputText = [] then Some (st, Some EmptyInputError)
         else case (if length inputText > 50000 then processLargeText [] inputText
                    else processStandardText [] inputText) of
                None \<Rightarrow> None
              | Some dp \<Rightarrow> Some (st\<lparr>detectedPII := dp\<rparr>, None))"

section \<open>The Luhn validator\<close>

text \<open>
  The validator as the specification words it: strip every character that is not one of
  the ten digits, reject unless 13 to 19 digits remain, and accept when the sum of the
  digits, each doubled (less 9 when the double exceeds 9) where its index and the
  number of digits have the same parity, is a multiple of 10.
\<close>

definition luhnSpecDigit :: "nat \<Rightarrow> nat \<Rightarrow> nat \<Rightarrow> nat" where
  "luhnSpecDigit n i d = (if i mod 2 = n mod 2 then (if 2 * d > 9 then 2 * d - 9 else 2 * d) else d)"

definition luhnSpec :: "string \<Rightarrow> bool" where
  "luhnSpec s =
     (let ds = map (\<lambda>c. the (map_of (zip ''0123456789'' [0 ..< 10]) c))
                 (filter (\<lambda>c. c \<in> set ''0123456789'') s);
          n = length ds
      in 13 \<le> n \<and> n \<le> 19 \<and> sum_list (map (\<lambda>i. luhnSpecDigit n i (ds ! i)) [0 ..< n]) mod 10 = 0)"

declare luhnLoop.simps [simp del]

lemma luhnLoop_sum:
  "luhnLoop ds p i acc = acc + sum_list (map (\<lambda>j. luhnStep p j (ds ! j)) [i ..< length ds])"
proof (induction ds p i acc rule: luhnLoop.induct)
  case (1 ds p i acc)
  show ?case
  proof (cases "i < length ds")
    case True
    then have "[i ..< length ds] = i # [i + 1 ..< length ds]" by (simp add: upt_conv_Cons)
    with True "1.IH" show ?thesis by (subst luhnLoop.simps) simp
  next
    case False
    then show ?thesis by (subst luhnLoop.simps) simp
  qed
qed

lemma code_digits:
  "code CHR ''0'' = 48" "code CHR ''1'' = 49" "code CHR ''2'' = 50" "code CHR ''3'' = 51"
  "code CHR ''4'' = 52" "code CHR ''5'' = 53" "code CHR ''6'' = 54" "code CHR ''7'' = 55"
  "code CHR ''8'' = 56" "code CHR ''9'' = 57"
  by (simp_all add: code_def)

lemma char_of_code: "char_of (code c) = c"
  by (simp add: code_def)

lemma char_of_digits:
  "char_of (48::nat) = CHR ''0''" "char_of (49::nat) = CHR ''1''" "char_of (50::nat) = CHR ''2''"
  "char_of (51::nat) = CHR ''3''" "char_of (52::nat) = CHR ''4''" "char_of (53::nat) = CHR ''5''"
  "char_of (54::nat) = CHR ''6''" "char_of (55::nat) = CHR ''7''" "char_of (56::nat) = CHR ''8''"
  "char_of (57::nat) = CHR ''9''"
  using char_of_code[of "CHR ''0''"] char_of_code[of "CHR ''1''"] char_of_code[of "CHR ''2''"]
    char_of_code[of "CHR ''3''"] char_of_code[of "CHR ''4''"] char_of_code[of "CHR ''5''"]
    char_of_code[of "CHR ''6''"] char_of_code[of "CHR ''7''"] char_of_code[of "CHR ''8''"]
    char_of_code[of "CHR ''9''"]
  by (simp_all only: code_digits)

lemma digit_cases:
  assumes "isDigit c"
  shows "c \<in> set ''0123456789''"
proof -
  have c: "c = char_of (code c)" by (simp add: code_def)
  from assms have "48 \<le> code c" "code c \<le> 57"
    by (simp_all add: isDigit_def inRange_def code_digits)
  then have "code c \<in> {48, 49, 50, 51, 52, 53, 54, 55, 56, 57}" by simp arith
  then have "char_of (code c) \<in> char_of ` {48::nat, 49, 50, 51, 52, 53, 54, 55, 56, 57}"
    by (rule imageI)
  also have "char_of ` {48::nat, 49, 50, 51, 52, 53, 54, 55, 56, 57} = set ''0123456789''"
    by (simp add: char_of_digits)
  finally show ?thesis using c by simp
qed

lemma isDigit_iff: "isDigit c = (c \<in> set ''0123456789'')"
proof
  assume "isDigit c" then show "c \<in> set ''0123456789''" by (rule digit_cases)
next
  assume "c \<in> set ''0123456789''"
  then show "isDigit c" by (auto simp: isDigit_def inRange_def code_digits)
qed

lemma digit_value:
  "c \<in> set ''0123456789'' \<Longrightarrow> code c - 48 = the (map_of (zip ''0123456789'' [0 ..< 10]) c)"
  by (auto simp: code_digits upt_conv_Cons)

lemma digitsOf_spec:
  "digitsOf s = map (\<lambda>c. the (map_of (zip ''0123456789'' [0 ..< 10]) c))
                    (filter (\<lambda>c. c \<in> set ''0123456789'') s)"
proof -
  have "filter isDigit s = filter (\<lambda>c. c \<in> set ''0123456789'') s"
    by (rule filter_cong) (simp_all add: isDigit_iff)
  moreover have "map (\<lambda>c. code c - 48) (filter (\<lambda>c. c \<in> set ''0123456789'') s)
      = map (\<lambda>c. the (map_of (zip ''0123456789'' [0 ..< 10]) c)) (filter (\<lambda>c. c \<in> set ''0123456789'') s)"
    by (rule map_cong) (simp_all add: digit_value del: set_simps)
  ultimately show ?thesis by (simp add: digitsOf_def)
qed

lemma luhnStep_spec: "luhnStep (n mod 2) i d = luhnSpecDigit n i d"
  by (simp add: luhnStep_def luhnSpecDigit_def Let_def mult.commute)

lemma luhnCheck_refines: "luhnCheck s = luhnSpec s"
proof -
  let ?ds = "digitsOf s"
  have "luhnLoop ?ds (length ?ds mod 2) 0 0
      = sum_list (map (\<lambda>i. luhnSpecDigit (length ?ds) i (?ds ! i)) [0 ..< length ?ds])"
    by (simp add: luhnLoop_sum luhnStep_spec)
  then show ?thesis
    unfolding luhnCheck_def luhnSpec_def digitsOf_spec[symmetric] Let_def
    by auto
qed

lemma luhn_example_valid: "luhnCheck ''4111111111111111''" by code_simp
lemma luhn_example_invalid: "\<not> luhnCheck ''4111111111111112''" by code_simp

text \<open>
  Claim C4. On every input string \<open>luhnCheck\<close> computes what the specification describes,
  so it accepts \<open>4111111111111111\<close> and rejects \<open>4111111111111112\<close>.
\<close>

theorem C4_luhn:
  "luhnCheck s = luhnSpec s \<and> luhnCheck ''4111111111111111'' \<and> \<not> luhnCheck ''4111111111111112''"
  using luhnCheck_refines luhn_example_valid luhn_example_invalid by simp

theorem C4_luhn_witness: "luhnSpec ''4111111111111111'' \<and> \<not> luhnSpec ''4111111111111112''"
  using C4_luhn[of "''4111111111111111''"] C4_luhn[of "''4111111111111112''"] by simp

section \<open>The structural-noise filter\<close>

text \<open>
  Claim C3, as amended. \<open>isJsonStructure\<close> discards a candidate exactly when the text
  before it ends with a quote and the text after it starts with a quote and a colon. Its
  first test returns on that context alone, so the list of structural words, which the
  second test consults in the same context, never changes the outcome.
\<close>

theorem C3_structural_filter:
  "isJsonStructure before match after
     = (endsWith before quoteStr \<and> startsWith after quoteColonStr)"
  by (simp add: isJsonStructure_def)

theorem C3_structural_filter_witness:
  "isJsonStructure ''x'' ''email'' [CHR 0x22, CHR '':'', CHR '' ''] = False
   \<and> isJsonStructure [CHR ''{'', CHR 0x22] ''Zed'' [CHR 0x22, CHR '':'', CHR '' ''] = True"
  using C3_structural_filter[of "''x''" "''email''" "[CHR 0x22, CHR '':'', CHR '' '']"]
        C3_structural_filter[of "[CHR ''{'', CHR 0x22]" "''Zed''" "[CHR 0x22, CHR '':'', CHR '' '']"]
  by (simp add: endsWith_def startsWith_def quoteStr_def quoteColonStr_def)

lemma lower_Alice: "toLowerCase ''Alice'' = ''alice''"
  by code_simp

lemma alice_not_word: "''alice'' \<notin> set jsonStructureWords"
  by (simp add: jsonStructureWords_def)

text \<open>
  The claim as stated fails: the candidate \<open>Alice\<close> between a quote and a quote-colon is
  discarded although \<open>alice\<close> is not a structural word.
\<close>

theorem C3_counterexample:
  "isJsonStructure [CHR 0x22] ''Alice'' [CHR 0x22, CHR '':'']
   \<and> endsWith [CHR 0x22] quoteStr \<and> startsWith [CHR 0x22, CHR '':''] quoteColonStr
   \<and> toLowerCase ''Alice'' \<notin> set jsonStructureWords"
  by (simp add: isJsonStructure_def endsWith_def startsWith_def quoteStr_def quoteColonStr_def
      lower_Alice alice_not_word)

section \<open>The deduplicator\<close>

text \<open>
  The property as the specification words it: \<open>keepFirst\<close> keeps the match at position
  \<open>i\<close> exactly when no earlier position holds the same pair of index and text, and
  keeps the survivors in their order.
\<close>

definition samePair :: "match \<Rightarrow> match \<Rightarrow> bool" where
  "samePair a b = (m_index a = m_index b \<and> m_text a = m_text b)"

definition keepFirst :: "match list \<Rightarrow> match list" where
  "keepFirst ms =
     map (\<lambda>i. ms ! i)
       (filter (\<lambda>i. \<not> list_ex (\<lambda>j. samePair (ms ! j) (ms ! i)) [0 ..< i]) [0 ..< length ms])"

subsection \<open>The identifier determines the pair\<close>

lemma digitChar_isDigit: "d < 10 \<Longrightarrow> isDigit (digitChar d)"
  by (simp add: isDigit_def inRange_def code_def)

lemma digitChar_inj: "a < 10 \<Longrightarrow> b < 10 \<Longrightarrow> digitChar a = digitChar b \<Longrightarrow> a = b"
proof -
  assume a: "a < 10" and b: "b < 10" and e: "digitChar a = digitChar b"
  from e have "(of_char (char_of (48 + a)) :: nat) = of_char (char_of (48 + b))" by simp
  with a b show "a = b" by simp
qed

lemma decimal_digits: "\<forall>c \<in> set (decimal n). isDigit c"
proof (induction n rule: decimal.induct)
  case (1 n)
  show ?case
  proof (cases "n < 10")
    case True
    then show ?thesis by (subst decimal.simps) (simp add: digitChar_isDigit del: digitChar.simps)
  next
    case False
    with "1.IH" show ?thesis
      by (subst decimal.simps) (simp add: digitChar_isDigit del: digitChar.simps)
  qed
qed

lemma decimal_nonempty: "decimal n \<noteq> []"
  by (subst decimal.simps) simp

lemma decimal_inj: "decimal a = decimal b \<Longrightarrow> a = b"
proof (induction a arbitrary: b rule: decimal.induct)
  case (1 n)
  show ?case
  proof (cases "n < 10")
    case small: True
    show ?thesis
    proof (cases "b < 10")
      case True
      with small "1.prems" have "digitChar n = digitChar b"
        by (simp add: decimal.simps[of n] decimal.simps[of b] del: digitChar.simps)
      with small True show ?thesis by (rule digitChar_inj)
    next
      case False
      with small "1.prems" have "[digitChar n] = decimal (b div 10) @ [digitChar (b mod 10)]"
        by (simp add: decimal.simps[of n] decimal.simps[of b] del: digitChar.simps)
      then have "decimal (b div 10) = []" by simp
      with decimal_nonempty show ?thesis by blast
    qed
  next
    case big: False
    show ?thesis
    proof (cases "b < 10")
      case True
      with big "1.prems" have "decimal (n div 10) @ [digitChar (n mod 10)] = [digitChar b]"
        by (simp add: decimal.simps[of n] decimal.simps[of b] del: digitChar.simps)
      then have "decimal (n div 10) = []" by simp
      with decimal_nonempty show ?thesis by blast
    next
      case False
      with big "1.prems" have
        "decimal (n div 10) @ [digitChar (n mod 10)] = decimal (b div 10) @ [digitChar (b mod 10)]"
        by (simp add: decimal.simps[of n] decimal.simps[of b] del: digitChar.simps)
      then have q: "decimal (n div 10) = decimal (b div 10)"
        and r: "digitChar (n mod 10) = digitChar (b mod 10)" by simp_all
      from "1.IH"[OF big q] have "n div 10 = b div 10" .
      moreover from r have "n mod 10 = b mod 10" by (intro digitChar_inj) simp_all
      ultimately show ?thesis by (metis div_mult_mod_eq)
    qed
  qed
qed

lemma dash_not_digit: "\<not> isDigit CHR ''-''"
  by (simp add: isDigit_def inRange_def code_def)

lemma digits_dash_split:
  assumes "\<forall>c \<in> set xs. isDigit c" "\<forall>c \<in> set ys. isDigit c"
    and "xs @ CHR ''-'' # u = ys @ CHR ''-'' # v"
  shows "xs = ys \<and> u = v"
  using assms
proof (induction xs arbitrary: ys)
  case Nil
  then show ?case using dash_not_digit by (cases ys) auto
next
  case (Cons x xs)
  then show ?case using dash_not_digit by (cases ys) auto
qed

lemma matchIdentifier_inj:
  "(matchIdentifier a = matchIdentifier b) = samePair a b"
proof
  assume "matchIdentifier a = matchIdentifier b"
  then have "decimal (m_index a) @ CHR ''-'' # m_text a = decimal (m_index b) @ CHR ''-'' # m_text b"
    by (simp add: matchIdentifier_def)
  from digits_dash_split[OF decimal_digits decimal_digits this]
  show "samePair a b" by (auto simp: samePair_def dest: decimal_inj)
next
  assume "samePair a b"
  then show "matchIdentifier a = matchIdentifier b" by (simp add: samePair_def matchIdentifier_def)
qed

subsection \<open>The loop keeps first occurrences\<close>

fun firsts :: "string set \<Rightarrow> match list \<Rightarrow> match list" where
  "firsts seen [] = []"
| "firsts seen (m # ms) =
     (if matchIdentifier m \<in> seen then firsts seen ms
      else m # firsts (insert (matchIdentifier m) seen) ms)"

lemma uniqueLoop_firsts: "uniqueLoop ms seen acc = acc @ firsts seen ms"
  by (induction ms arbitrary: seen acc) auto

lemma ex_less_Suc: "(\<exists>j < Suc i. Q j) = (Q 0 \<or> (\<exists>j < i. Q (Suc j)))"
  by (metis less_Suc_eq_0_disj)

lemma firsts_index:
  "firsts seen ms =
     map (\<lambda>i. ms ! i)
       (filter (\<lambda>i. matchIdentifier (ms ! i) \<notin> seen
                  \<and> \<not> (\<exists>j < i. matchIdentifier (ms ! j) = matchIdentifier (ms ! i)))
          [0 ..< length ms])"
proof (induction ms arbitrary: seen)
  case Nil
  then show ?case by simp
next
  case (Cons m ms)
  let ?P = "\<lambda>seen ms i. matchIdentifier (ms ! i) \<notin> seen
                  \<and> \<not> (\<exists>j < i. matchIdentifier (ms ! j) = matchIdentifier (ms ! i))"
  let ?seen' = "if matchIdentifier m \<in> seen then seen else insert (matchIdentifier m) seen"
  have upt: "[0 ..< length (m # ms)] = 0 # map Suc [0 ..< length ms]"
    by (simp add: upt_conv_Cons map_Suc_upt del: upt_Suc)
  have step: "?P seen (m # ms) (Suc i) = ?P ?seen' ms i" for i
    by (auto simp: ex_less_Suc)
  define T where "T = map (\<lambda>i. (m # ms) ! i)
      (filter (?P seen (m # ms)) (map Suc [0 ..< length ms]))"
  have tail: "T = map (\<lambda>i. ms ! i) (filter (?P ?seen' ms) [0 ..< length ms])"
    unfolding T_def filter_map o_def step by (simp add: o_def)
  have whole: "map (\<lambda>i. (m # ms) ! i) (filter (?P seen (m # ms)) [0 ..< length (m # ms)])
      = (if matchIdentifier m \<in> seen then [] else [m]) @ T"
    unfolding upt T_def by simp
  show ?case
  proof (cases "matchIdentifier m \<in> seen")
    case True
    then have "firsts seen (m # ms) = firsts seen ms" by simp
    also have "\<dots> = T"
      unfolding tail using True Cons.IH[of seen] by simp
    finally show ?thesis unfolding whole using True by simp
  next
    case False
    then have "firsts seen (m # ms) = m # firsts (insert (matchIdentifier m) seen) ms" by simp
    also have "\<dots> = m # T"
      unfolding tail using False Cons.IH[of "insert (matchIdentifier m) seen"] by simp
    finally show ?thesis unfolding whole using False by simp
  qed
qed

lemma detection_update_eq:
  "(d :: detection)\<lparr>d_matches := a, d_count := b\<rparr> = \<lparr>d_matches = a, d_count = b\<rparr>"
  by (cases d) simp

lemma earlier_same: "list_ex (\<lambda>j. samePair (ms ! j) (ms ! i)) [0 ..< i] = (\<exists>j < i. samePair (ms ! j) (ms ! i))"
  by (auto simp: list_ex_iff)

lemma uniqueLoop_keepFirst: "uniqueLoop ms {} [] = keepFirst ms"
  by (simp add: uniqueLoop_firsts firsts_index keepFirst_def matchIdentifier_inj earlier_same)

lemma deduplicateMatches_keepFirst:
  "deduplicateMatches dp
     = map (\<lambda>(key, d). (key, \<lparr>d_matches = keepFirst (d_matches d),
                                 d_count = length (keepFirst (d_matches d))\<rparr>)) dp"
  by (simp add: deduplicateMatches_def deduplicateEntry_def Let_def uniqueLoop_keepFirst
      detection_update_eq)

text \<open>
  Claim C7. In every category \<open>deduplicateMatches\<close> keeps exactly the matches that no
  earlier match of the category equals in both index and text, in their original order,
  and sets the count to the number kept. Two matches share an identifier only when they
  agree in index and in text, so matches that differ in either are never merged.
\<close>

theorem C7_deduplicate:
  "deduplicateMatches dp
     = map (\<lambda>(key, d). (key, \<lparr>d_matches = keepFirst (d_matches d),
                                 d_count = length (keepFirst (d_matches d))\<rparr>)) dp
   \<and> (matchIdentifier a = matchIdentifier b) = (m_index a = m_index b \<and> m_text a = m_text b)"
  using deduplicateMatches_keepFirst[of dp] by (simp add: matchIdentifier_inj samePair_def)


theorem C7_deduplicate_witness:
  "deduplicateMatches
     [(''email'', \<lparr>d_matches = [\<lparr>m_text = ''a'', m_index = 5\<rparr>, \<lparr>m_text = ''a'', m_index = 5\<rparr>,
                                 \<lparr>m_text = ''b'', m_index = 5\<rparr>, \<lparr>m_text = ''a'', m_index = 6\<rparr>,
                                 \<lparr>m_text = ''b'', m_index = 5\<rparr>], d_count = 5\<rparr>)]
   = [(''email'', \<lparr>d_matches = [\<lparr>m_text = ''a'', m_index = 5\<rparr>, \<lparr>m_text = ''b'', m_index = 5\<rparr>,
                                   \<lparr>m_text = ''a'', m_index = 6\<rparr>], d_count = 3\<rparr>)]"
proof -
  have "keepFirst [\<lparr>m_text = ''a'', m_index = 5\<rparr>, \<lparr>m_text = ''a'', m_index = 5\<rparr>,
                   \<lparr>m_text = ''b'', m_index = 5\<rparr>, \<lparr>m_text = ''a'', m_index = 6\<rparr>,
                   \<lparr>m_text = ''b'', m_index = 5\<rparr>]
      = [\<lparr>m_text = ''a'', m_index = 5\<rparr>, \<lparr>m_text = ''b'', m_index = 5\<rparr>,
         \<lparr>m_text = ''a'', m_index = 6\<rparr>]"
    by code_simp
  then show ?thesis
    using C7_deduplicate[of "[(''email'', \<lparr>d_matches = [\<lparr>m_text = ''a'', m_index = 5\<rparr>,
        \<lparr>m_text = ''a'', m_index = 5\<rparr>, \<lparr>m_text = ''b'', m_index = 5\<rparr>,
        \<lparr>m_text = ''a'', m_index = 6\<rparr>, \<lparr>m_text = ''b'', m_index = 5\<rparr>], d_count = 5\<rparr>)]"]
    by simp
qed

section \<open>The chunker\<close>

definition chunkAt :: "string \<Rightarrow> nat \<Rightarrow> chunk" where
  \<comment> \<open>The window of at most 10000 characters that starts at \<open>i\<close>.\<close>
  "chunkAt doc i = \<lparr>c_text = slice doc i (min (i + 10000) (length doc)), c_offset = i\<rparr>"

lemma ceil_step:
  fixes d m :: nat
  assumes "0 < d" "0 < m"
  shows "(m + (d - 1)) div d = Suc ((m - d + (d - 1)) div d)"
proof (cases "d \<le> m")
  case True
  define x where "x = m - d + (d - 1)"
  from True have "m + (d - 1) = x + d" by (simp add: x_def)
  moreover have "(x + d) div d = Suc (x div d)"
    using assms(1) div_add_self2[of d x] by simp
  ultimately show ?thesis by (simp add: x_def)
next
  case False
  then have z: "m - d + (d - 1) = d - 1" by simp
  have "(d - 1) div d = 0" using assms(1) by simp
  moreover have "(m + (d - 1)) div d = 1"
  proof (rule div_nat_eqI)
    show "d * 1 \<le> m + (d - 1)" using assms by simp
    show "m + (d - 1) < d * Suc 1" using False assms by simp
  qed
  ultimately show ?thesis using z by simp
qed

lemma below_ceil:
  fixes d k n :: nat
  assumes "0 < d" "k * d < n"
  shows "k < (n + (d - 1)) div d"
proof -
  from assms have "Suc k * d \<le> n + (d - 1)" by simp
  with assms(1) have "Suc k \<le> (n + (d - 1)) div d"
    by (simp only: less_eq_div_iff_mult_less_eq)
  then show ?thesis by simp
qed

lemma floor_bounds:
  fixes d a :: nat
  assumes "0 < d"
  shows "a div d * d \<le> a" and "a < a div d * d + d"
proof -
  show "a div d * d \<le> a" by simp
  have "a = a div d * d + a mod d" by simp
  moreover have "a mod d < d" using assms by simp
  ultimately show "a < a div d * d + d" by linarith
qed

lemma makeChunks_from:
  "makeChunks doc i = map (\<lambda>k. chunkAt doc (i + k * 9500)) [0 ..< (length doc - i + 9499) div 9500]"
proof (induction doc i rule: makeChunks.induct)
  case (1 doc i)
  show ?case
  proof (cases "i < length doc")
    case True
    have "(length doc - i + (9500 - 1)) div 9500
        = Suc ((length doc - i - 9500 + (9500 - 1)) div 9500)"
      using True by (intro ceil_step) simp_all
    then have cnt: "(length doc - i + 9499) div 9500
        = Suc ((length doc - (i + 9500) + 9499) div 9500)"
      by simp
    have "makeChunks doc i = chunkAt doc i # makeChunks doc (i + 9500)"
      using True by (subst makeChunks.simps) (simp add: chunkAt_def chunkSize_def overlap_def)
    also have "makeChunks doc (i + 9500)
        = map (\<lambda>k. chunkAt doc (i + 9500 + k * 9500)) [0 ..< (length doc - (i + 9500) + 9499) div 9500]"
      using "1.IH"[OF True] by (simp add: chunkSize_def overlap_def)
    also have "chunkAt doc i # \<dots>
        = map (\<lambda>k. chunkAt doc (i + k * 9500)) [0 ..< Suc ((length doc - (i + 9500) + 9499) div 9500)]"
      by (simp add: upt_conv_Cons map_Suc_upt[symmetric] add.assoc del: upt_Suc)
    finally show ?thesis unfolding cnt .
  next
    case False
    then have "(length doc - i + 9499) div 9500 = 0" by simp
    with False show ?thesis by (subst makeChunks.simps) simp
  qed
qed

lemma makeChunks_eq:
  "makeChunks doc 0 = map (\<lambda>k. chunkAt doc (k * 9500)) [0 ..< (length doc + 9499) div 9500]"
  using makeChunks_from[of doc 0] by simp

lemma window_covers:
  assumes "doc \<noteq> []" "a + l \<le> length doc" "l \<le> 500"
  shows "\<exists>c \<in> set (makeChunks doc 0). c_offset c \<le> a \<and> a + l \<le> c_offset c + length (c_text c)
           \<and> substring (c_text c) (a - c_offset c) (a - c_offset c + l) = substring doc a (a + l)"
proof -
  define n where "n = length doc"
  define d :: nat where "d = 9500"
  define b where "b = (if a < n then a else n - 1)"
  define k where "k = b div d"
  define i where "i = k * d"
  have dpos: "0 < d" by (simp add: d_def)
  have npos: "0 < n" using assms(1) by (simp add: n_def)
  have an: "a + l \<le> n" using assms(2) by (simp add: n_def)
  have b_lt: "b < n" using npos by (simp add: b_def)
  have b_le: "b \<le> a" unfolding b_def by arith
  have ab: "a + l \<le> b + 1 + l" "a < n \<or> l = 0" using an npos by (auto simp: b_def)
  from floor_bounds[OF dpos, of b] have fb: "i \<le> b" "b < i + d" by (simp_all add: i_def k_def)
  have "k * d < n" using fb(1) b_lt by (simp add: i_def)
  from below_ceil[OF dpos this] have k_lt: "k < (n + 9499) div 9500" by (simp add: d_def)
  have i_le: "i \<le> a" using fb(1) b_le by simp
  have "a + l \<le> i + d + 500"
  proof (cases "a < n")
    case True
    then have "b = a" by (simp add: b_def)
    with fb(2) assms(3) show ?thesis by simp
  next
    case False
    with ab have "l = 0" "a = n" using an by auto
    with fb(2) b_lt show ?thesis by (simp add: b_def split: if_splits)
  qed
  then have "a + l \<le> i + 10000" by (simp add: d_def)
  with an have cover: "a + l \<le> min (i + 10000) n" by simp
  have i95: "i = k * 9500" by (simp add: i_def d_def)
  have mem: "chunkAt doc i \<in> set (makeChunks doc 0)"
    unfolding makeChunks_eq i95 using k_lt by (auto simp: n_def)
  have len: "length (c_text (chunkAt doc i)) = min (i + 10000) n - i"
    by (simp add: chunkAt_def slice_def n_def)
  have sub: "substring (c_text (chunkAt doc i)) (a - i) (a - i + l) = substring doc a (a + l)"
  proof -
    from cover have "l \<le> min (i + 10000) n - a" by linarith
    then have ml: "min l (min (i + 10000) n - a) = l" by (rule min_absorb1)
    have "take l (drop (a - i) (take (min (i + 10000) n - i) (drop i doc))) = take l (drop a doc)"
      using i_le cover by (simp add: drop_take ml)
    then show ?thesis by (simp add: chunkAt_def slice_def substring_def n_def)
  qed
  show ?thesis
    apply (rule bexI[OF _ mem])
    using i_le cover len sub by (simp add: chunkAt_def)
qed


text \<open>
  Claim C9. With window size 10000 and overlap 500 the windows start at the multiples of
  \<open>chunkSize - overlap = 9500\<close> below the length of the document, and each runs for
  10000 characters or to the end of the document. So every stretch of fewer than 500
  characters of a non-empty document lies inside one window, where it reads the same.
  (The empty document has no window at all.)
\<close>

theorem C9_chunker:
  "chunkSize = 10000 \<and> overlap = 500
   \<and> makeChunks doc 0
       = map (\<lambda>k. \<lparr>c_text = slice doc (k * (chunkSize - overlap))
                                 (min (k * (chunkSize - overlap) + chunkSize) (length doc)),
                      c_offset = k * (chunkSize - overlap)\<rparr>)
           [0 ..< (length doc + 9499) div 9500]
   \<and> (doc \<noteq> [] \<longrightarrow> a + l \<le> length doc \<longrightarrow> l < overlap \<longrightarrow>
        (\<exists>c \<in> set (makeChunks doc 0).
            c_offset c \<le> a \<and> a + l \<le> c_offset c + length (c_text c)
            \<and> substring (c_text c) (a - c_offset c) (a - c_offset c + l) = substring doc a (a + l)))"
proof -
  have "doc \<noteq> [] \<longrightarrow> a + l \<le> length doc \<longrightarrow> l < overlap \<longrightarrow>
        (\<exists>c \<in> set (makeChunks doc 0).
            c_offset c \<le> a \<and> a + l \<le> c_offset c + length (c_text c)
            \<and> substring (c_text c) (a - c_offset c) (a - c_offset c + l) = substring doc a (a + l))"
    using window_covers[of doc a l] by (simp add: overlap_def)
  then show ?thesis
    by (simp add: makeChunks_eq chunkAt_def chunkSize_def overlap_def)
qed

theorem C9_chunker_witness:
  "map c_offset (makeChunks (replicate 20000 CHR ''a'') 0) = [0, 9500, 19000]
   \<and> map (\<lambda>c. length (c_text c)) (makeChunks (replicate 20000 CHR ''a'') 0) = [10000, 10000, 1000]
   \<and> (\<exists>c \<in> set (makeChunks (replicate 20000 CHR ''a'') 0).
          c_offset c \<le> 9900 \<and> 9900 + 200 \<le> c_offset c + length (c_text c)
          \<and> substring (c_text c) (9900 - c_offset c) (9900 - c_offset c + 200)
              = substring (replicate 20000 CHR ''a'') 9900 (9900 + 200))"
proof -
  note inst = C9_chunker[of "replicate 20000 CHR ''a''" 9900 200]
  have n: "(length (replicate 20000 CHR ''a'') + 9499) div 9500 = 3" by simp
  have up: "[0 ..< 3] = [0, 1, 2]" by (simp add: upt_conv_Cons)
  from inst have eq: "makeChunks (replicate 20000 CHR ''a'') 0
       = map (\<lambda>k. \<lparr>c_text = slice (replicate 20000 CHR ''a'') (k * (chunkSize - overlap))
                                 (min (k * (chunkSize - overlap) + chunkSize) (length (replicate 20000 CHR ''a''))),
                      c_offset = k * (chunkSize - overlap)\<rparr>) [0, 1, 2]"
    unfolding n up by blast
  have offs: "map c_offset (makeChunks (replicate 20000 CHR ''a'') 0) = [0, 9500, 19000]"
    unfolding eq by (simp add: chunkSize_def overlap_def)
  have lens: "map (\<lambda>c. length (c_text c)) (makeChunks (replicate 20000 CHR ''a'') 0)
      = [10000, 10000, 1000]"
    unfolding eq by (simp add: chunkSize_def overlap_def slice_def)
  from inst have imp: "replicate 20000 CHR ''a'' \<noteq> [] \<longrightarrow>
      9900 + 200 \<le> length (replicate 20000 CHR ''a'') \<longrightarrow> 200 < overlap \<longrightarrow>
      (\<exists>c \<in> set (makeChunks (replicate 20000 CHR ''a'') 0).
          c_offset c \<le> 9900 \<and> 9900 + 200 \<le> c_offset c + length (c_text c)
          \<and> substring (c_text c) (9900 - c_offset c) (9900 - c_offset c + 200)
              = substring (replicate 20000 CHR ''a'') 9900 (9900 + 200))"
    by (elim conjE)
  have "\<exists>c \<in> set (makeChunks (replicate 20000 CHR ''a'') 0).
          c_offset c \<le> 9900 \<and> 9900 + 200 \<le> c_offset c + length (c_text c)
          \<and> substring (c_text c) (9900 - c_offset c) (9900 - c_offset c + 200)
              = substring (replicate 20000 CHR ''a'') 9900 (9900 + 200)"
    using imp by (simp add: overlap_def)
  with offs lens show ?thesis by (intro conjI)
qed

section \<open>Offsets of detected matches\<close>

text \<open>
  \<open>matchOk doc m\<close> is the invariant of a match: the document reads \<open>m_text m\<close> at
  \<open>m_index m\<close>. \<open>matchesOf dp\<close> is the set of all matches of a detection result.
\<close>

definition matchOk :: "string \<Rightarrow> match \<Rightarrow> bool" where
  "matchOk doc m = (substring doc (m_index m) (m_index m + length (m_text m)) = m_text m)"

definition matchesOf :: "detected \<Rightarrow> match set" where
  "matchesOf dp = (\<Union>entry \<in> set dp. set (d_matches (snd entry)))"

lemma substring_take_drop: "a \<le> b \<Longrightarrow> substring s a b = take (b - a) (drop a s)"
  by (simp add: substring_def min_absorb1 max_absorb2)

lemma length_substring: "a \<le> b \<Longrightarrow> b \<le> length s \<Longrightarrow> length (substring s a b) = b - a"
  by (simp add: substring_take_drop)

lemma found_in_window:
  assumes "idx \<le> e" "e \<le> length (slice doc off stop)"
  shows "matchOk doc \<lparr>m_text = substring (slice doc off stop) idx e, m_index = idx + off\<rparr>"
proof -
  let ?w = "slice doc off stop"
  have len: "length (substring ?w idx e) = e - idx" using assms by (rule length_substring)
  from assms(2) have e: "e \<le> stop - off" "e \<le> length doc - off" by (simp_all add: slice_def)
  have "substring ?w idx e = take (e - idx) (drop idx (take (stop - off) (drop off doc)))"
    using assms(1) by (simp add: substring_take_drop slice_def)
  also have "\<dots> = take (e - idx) (drop (idx + off) doc)"
    using e assms(1) by (simp add: drop_take min_absorb1 add.commute)
  finally have "substring ?w idx e = take (e - idx) (drop (idx + off) doc)" .
  with len show ?thesis by (simp add: matchOk_def substring_take_drop)
qed

lemma found_in_text:
  assumes "idx \<le> e" "e \<le> length doc"
  shows "matchOk doc \<lparr>m_text = substring doc idx e, m_index = idx + 0\<rparr>"
proof -
  have "slice doc 0 (length doc) = doc" by (simp add: slice_def)
  with found_in_window[of idx e doc 0 "length doc"] assms show ?thesis by simp
qed

lemma acceptMatch_cases:
  "acceptMatch key pii s off idx e ms = ms
   \<or> acceptMatch key pii s off idx e ms = ms @ [\<lparr>m_text = substring s idx e, m_index = idx + off\<rparr>]"
  by (simp add: acceptMatch_def Let_def)

lemma scanMatches_inv:
  assumes "scanMatches key pii s off li ms = Some r"
    and "\<forall>m \<in> set ms. Q m"
    and "\<And>idx e. idx \<le> e \<Longrightarrow> e \<le> length s \<Longrightarrow> Q \<lparr>m_text = substring s idx e, m_index = idx + off\<rparr>"
  shows "\<forall>m \<in> set r. Q m"
  using assms
proof (induction key pii s off li ms rule: scanMatches.induct)
  case (1 key pii s off li ms)
  note unf = scanMatches.simps[of key pii s off li ms]
  show ?case
  proof (cases "regexExec (pattern pii) s li")
    case None
    with "1.prems" unf show ?thesis by simp
  next
    case (Some hit)
    obtain idx e where hit: "hit = (idx, e)" by (cases hit)
    from regexExec_bounds[of "pattern pii" s li idx e] Some hit
    have b: "idx \<le> e" "e \<le> length s" by auto
    let ?ms' = "acceptMatch key pii s off idx e ms"
    have ok': "\<forall>m \<in> set ?ms'. Q m"
      using acceptMatch_cases[of key pii s off idx e ms] "1.prems"(2) "1.prems"(3)[OF b] by auto
    show ?thesis
    proof (cases "global (pattern pii)")
      case False
      with Some hit "1.prems"(1) unf have "r = ?ms'" by simp
      with ok' show ?thesis by simp
    next
      case True
      show ?thesis
      proof (cases "e \<le> li")
        case True
        with \<open>global (pattern pii)\<close> Some hit "1.prems"(1) unf show ?thesis by simp
      next
        case False
        with True Some hit "1.prems"(1) unf
        have "scanMatches key pii s off e ?ms' = Some r" by simp
        from "1.IH"[OF Some hit[symmetric] _ False this ok' "1.prems"(3)] True show ?thesis by simp
      qed
    qed
  qed
qed

lemma scanMatches_total:
  assumes "global (pattern pii) \<longrightarrow> 0 < minLen (source (pattern pii))"
  shows "\<exists>r. scanMatches key pii s off li ms = Some r"
  using assms
proof (induction key pii s off li ms rule: scanMatches.induct)
  case (1 key pii s off li ms)
  note unf = scanMatches.simps[of key pii s off li ms]
  show ?case
  proof (cases "regexExec (pattern pii) s li")
    case None
    with unf show ?thesis by simp
  next
    case (Some hit)
    obtain idx e where hit: "hit = (idx, e)" by (cases hit)
    show ?thesis
    proof (cases "global (pattern pii)")
      case False
      with Some hit unf show ?thesis by simp
    next
      case True
      from regexExec_bounds[of "pattern pii" s li idx e] Some hit True "1.prems"
      have adv: "\<not> e \<le> li" by auto
      from "1.IH"[OF Some hit[symmetric] _ adv "1.prems"] True
      obtain r where "scanMatches key pii s off e (acceptMatch key pii s off idx e ms) = Some r"
        by auto
      with True adv Some hit unf show ?thesis by simp
    qed
  qed
qed

text \<open>
  \<open>matchesAt dp key\<close> is the match list of a category (empty when the category has no
  entry), \<open>scanEntry pats s off key\<close> is what the scan of the text \<open>s\<close> finds for the
  pattern registered under \<open>key\<close>, and \<open>nonEmptyPatterns\<close> says that no pattern of a
  registry can match the empty string.
\<close>

definition matchesAt :: "detected \<Rightarrow> string \<Rightarrow> match list" where
  "matchesAt dp key = (case map_of dp key of None \<Rightarrow> [] | Some d \<Rightarrow> d_matches d)"

definition scanEntry :: "(string \<times> pii) list \<Rightarrow> string \<Rightarrow> nat \<Rightarrow> string \<Rightarrow> match list" where
  "scanEntry pats s off key =
     (case map_of pats key of
        None \<Rightarrow> []
      | Some pii \<Rightarrow> (case scanMatches key pii s off 0 [] of None \<Rightarrow> [] | Some ms \<Rightarrow> ms))"

definition nonEmptyPatterns :: "(string \<times> pii) list \<Rightarrow> bool" where
  "nonEmptyPatterns pats = list_all (\<lambda>(key, pii). 0 < minLen (source (pattern pii))) pats"

subsection \<open>Assignments to the detection object\<close>

lemma map_of_replace:
  "map_of (map (\<lambda>(k', d). if k' = k then (k', v) else (k', d)) dp) x
     = (if x = k then (if k \<in> set (map fst dp) then Some v else None) else map_of dp x)"
  by (induction dp) (auto simp: rev_image_eqI)

lemma map_of_assign: "map_of (assign dp k v) = (map_of dp)(k \<mapsto> v)"
proof (cases "k \<in> set (map fst dp)")
  case True
  then show ?thesis by (auto simp: assign_def map_of_replace fun_eq_iff)
next
  case False
  then have "map_of dp k = None" by (simp add: map_of_eq_None_iff)
  with False show ?thesis by (auto simp: assign_def fun_eq_iff map_add_def split: option.splits)
qed

lemma keys_assign:
  "map fst (assign dp k v) = (if k \<in> set (map fst dp) then map fst dp else map fst dp @ [k])"
proof -
  have "map fst (map (\<lambda>(k', d). if k' = k then (k', v) else (k', d)) dp) = map fst dp"
    by (induction dp) auto
  then show ?thesis by (simp add: assign_def)
qed

lemma distinct_assign: "distinct (map fst dp) \<Longrightarrow> distinct (map fst (assign dp k v))"
  by (simp add: keys_assign)

lemma matchesOf_assign: "matchesOf (assign dp k v) \<subseteq> matchesOf dp \<union> set (d_matches v)"
  by (auto simp: matchesOf_def assign_def split: if_splits)

lemma matchesOf_lookup: "map_of dp k = Some d \<Longrightarrow> set (d_matches d) \<subseteq> matchesOf dp"
  by (auto simp: matchesOf_def dest!: map_of_SomeD)

lemma map_of_addMatches:
  "map_of (addMatches dp k ms)
     = (map_of dp)(k \<mapsto> \<lparr>d_matches = matchesAt dp k @ ms,
                          d_count = (case map_of dp k of None \<Rightarrow> 0 | Some d \<Rightarrow> d_count d) + length ms\<rparr>)"
  by (cases "map_of dp k") (simp_all add: addMatches_def map_of_assign matchesAt_def Let_def)

lemma keys_addMatches:
  "map fst (addMatches dp k ms) = (if k \<in> set (map fst dp) then map fst dp else map fst dp @ [k])"
proof (cases "map_of dp k")
  case None
  then have "k \<notin> set (map fst dp)" by (simp add: map_of_eq_None_iff)
  with None show ?thesis by (simp add: addMatches_def Let_def map_of_assign keys_assign)
next
  case (Some d)
  then have "k \<in> set (map fst dp)" by (metis map_of_eq_None_iff option.distinct(1) set_map)
  with Some show ?thesis by (simp add: addMatches_def Let_def keys_assign)
qed

lemma distinct_addMatches: "distinct (map fst dp) \<Longrightarrow> distinct (map fst (addMatches dp k ms))"
  by (simp add: keys_addMatches)

lemma matchesOf_addMatches: "matchesOf (addMatches dp k ms) \<subseteq> matchesOf dp \<union> set ms"
proof (cases "map_of dp k")
  case None
  let ?dp' = "assign dp k \<lparr>d_matches = [], d_count = 0\<rparr>"
  have "matchesOf ?dp' \<subseteq> matchesOf dp" using matchesOf_assign[of dp k "\<lparr>d_matches = [], d_count = 0\<rparr>"] by simp
  moreover have "addMatches dp k ms = assign ?dp' k \<lparr>d_matches = [] @ ms, d_count = 0 + length ms\<rparr>"
    using None by (simp add: addMatches_def Let_def map_of_assign)
  ultimately show ?thesis
    using matchesOf_assign[of ?dp' k "\<lparr>d_matches = [] @ ms, d_count = 0 + length ms\<rparr>"] by auto
next
  case (Some d)
  then have "addMatches dp k ms = assign dp k \<lparr>d_matches = d_matches d @ ms, d_count = d_count d + length ms\<rparr>"
    by (simp add: addMatches_def Let_def)
  then show ?thesis
    using matchesOf_assign[of dp k "\<lparr>d_matches = d_matches d @ ms, d_count = d_count d + length ms\<rparr>"]
      matchesOf_lookup[OF Some] by auto
qed

subsection \<open>The scans return\<close>

lemma detectStandard_total:
  "nonEmptyPatterns pats \<Longrightarrow> \<exists>res. detectStandard pats s dp = Some res"
proof (induction pats arbitrary: dp)
  case Nil
  then show ?case by simp
next
  case (Cons entry pats)
  obtain key pii where entry: "entry = (key, pii)" by (cases entry)
  from Cons.prems entry have "0 < minLen (source (pattern pii))" "nonEmptyPatterns pats"
    by (simp_all add: nonEmptyPatterns_def)
  moreover then obtain ms where "scanMatches key pii s 0 0 [] = Some ms"
    using scanMatches_total[of pii key s 0 0 "[]"] by auto
  ultimately show ?case using Cons.IH entry by simp
qed

lemma detectChunk_total:
  "nonEmptyPatterns pats \<Longrightarrow> \<exists>res. detectChunk pats c dp = Some res"
proof (induction pats arbitrary: dp)
  case Nil
  then show ?case by simp
next
  case (Cons entry pats)
  obtain key pii where entry: "entry = (key, pii)" by (cases entry)
  from Cons.prems entry have "0 < minLen (source (pattern pii))" "nonEmptyPatterns pats"
    by (simp_all add: nonEmptyPatterns_def)
  moreover then obtain ms where "scanMatches key pii (c_text c) (c_offset c) 0 [] = Some ms"
    using scanMatches_total[of pii key "c_text c" "c_offset c" 0 "[]"] by auto
  ultimately show ?case using Cons.IH entry by simp
qed

lemma runChunks_total:
  "nonEmptyPatterns sortedPatterns \<Longrightarrow> \<exists>res. runChunks cs i dp = Some res"
proof (induction cs arbitrary: i dp)
  case Nil
  then show ?case by simp
next
  case (Cons c cs)
  from detectChunk_total[OF Cons.prems]
  obtain dp' where "processChunk c (i = 0) dp = Some dp'" unfolding processChunk_def by blast
  with Cons.IH[OF Cons.prems] show ?case by simp
qed

subsection \<open>The scans keep the invariant\<close>

lemma detectStandard_inv:
  assumes "detectStandard pats s dp = Some res"
    and "\<forall>m \<in> matchesOf dp. Q m"
    and "\<And>idx e. idx \<le> e \<Longrightarrow> e \<le> length s \<Longrightarrow> Q \<lparr>m_text = substring s idx e, m_index = idx + 0\<rparr>"
  shows "\<forall>m \<in> matchesOf res. Q m"
  using assms(1,2)
proof (induction pats arbitrary: dp)
  case Nil
  then show ?case by simp
next
  case (Cons entry pats)
  obtain key pii where entry: "entry = (key, pii)" by (cases entry)
  from Cons.prems(1) entry obtain ms where ms: "scanMatches key pii s 0 0 [] = Some ms"
    by (auto split: option.splits)
  let ?dp' = "if length ms > 0 then assign dp key \<lparr>d_matches = ms, d_count = length ms\<rparr> else dp"
  from Cons.prems(1) entry ms have rest: "detectStandard pats s ?dp' = Some res" by simp
  have "\<forall>m \<in> set ms. Q m"
  proof (rule scanMatches_inv[OF ms])
    show "\<forall>m \<in> set []. Q m" by simp
  next
    fix idx e assume "idx \<le> e" "e \<le> length s"
    then show "Q \<lparr>m_text = substring s idx e, m_index = idx + 0\<rparr>" by (rule assms(3))
  qed
  with Cons.prems(2) have "\<forall>m \<in> matchesOf ?dp'. Q m"
    using matchesOf_assign[of dp key "\<lparr>d_matches = ms, d_count = length ms\<rparr>"] by auto
  from Cons.IH[OF rest this] show ?case .
qed

lemma detectChunk_inv:
  assumes "detectChunk pats c dp = Some res"
    and "\<forall>m \<in> matchesOf dp. Q m"
    and "\<And>idx e. idx \<le> e \<Longrightarrow> e \<le> length (c_text c)
           \<Longrightarrow> Q \<lparr>m_text = substring (c_text c) idx e, m_index = idx + c_offset c\<rparr>"
  shows "\<forall>m \<in> matchesOf res. Q m"
  using assms(1,2)
proof (induction pats arbitrary: dp)
  case Nil
  then show ?case by simp
next
  case (Cons entry pats)
  obtain key pii where entry: "entry = (key, pii)" by (cases entry)
  from Cons.prems(1) entry obtain ms where ms: "scanMatches key pii (c_text c) (c_offset c) 0 [] = Some ms"
    by (auto split: option.splits)
  let ?dp' = "if length ms > 0 then addMatches dp key ms else dp"
  from Cons.prems(1) entry ms have rest: "detectChunk pats c ?dp' = Some res" by simp
  have "\<forall>m \<in> set ms. Q m"
  proof (rule scanMatches_inv[OF ms])
    show "\<forall>m \<in> set []. Q m" by simp
  next
    fix idx e assume "idx \<le> e" "e \<le> length (c_text c)"
    then show "Q \<lparr>m_text = substring (c_text c) idx e, m_index = idx + c_offset c\<rparr>"
      by (rule assms(3))
  qed
  with Cons.prems(2) have "\<forall>m \<in> matchesOf ?dp'. Q m"
    using matchesOf_addMatches[of dp key ms] by auto
  from Cons.IH[OF rest this] show ?case .
qed

lemma runChunks_inv:
  assumes "runChunks cs i dp = Some res"
    and "\<forall>m \<in> matchesOf dp. matchOk doc m"
    and "\<forall>c \<in> set cs. \<exists>stop. c_text c = slice doc (c_offset c) stop"
  shows "\<forall>m \<in> matchesOf res. matchOk doc m"
  using assms
proof (induction cs arbitrary: i dp)
  case Nil
  then show ?case by simp
next
  case (Cons c cs)
  from Cons.prems(1) obtain dp' where step: "processChunk c (i = 0) dp = Some dp'"
    and rest: "runChunks cs (i + 1) dp' = Some res" by (auto split: option.splits)
  from Cons.prems(3) obtain stop where c: "c_text c = slice doc (c_offset c) stop" by auto
  have start: "\<forall>m \<in> matchesOf (if i = 0 then [] else dp). matchOk doc m"
    using Cons.prems(2) by (simp add: matchesOf_def)
  have "\<forall>m \<in> matchesOf dp'. matchOk doc m"
    apply (rule detectChunk_inv[OF step[unfolded processChunk_def] start])
    unfolding c by (rule found_in_window)
  from Cons.IH[OF rest this] Cons.prems(3) show ?case by simp
qed

lemma samePair_eq: "samePair a b = (a = b)"
  by (cases a; cases b) (auto simp: samePair_def)

lemma set_firsts: "set (firsts seen ms) = {m \<in> set ms. matchIdentifier m \<notin> seen}"
proof (induction ms arbitrary: seen)
  case Nil
  then show ?case by simp
next
  case (Cons m ms)
  show ?case
  proof (cases "matchIdentifier m \<in> seen")
    case True
    with Cons.IH[of seen] show ?thesis by auto
  next
    case False
    have "x = m" if "matchIdentifier x = matchIdentifier m" for x
      using that by (simp add: matchIdentifier_inj samePair_eq)
    with False Cons.IH[of "insert (matchIdentifier m) seen"] show ?thesis by auto
  qed
qed

lemma set_keepFirst: "set (keepFirst ms) = set ms"
  using set_firsts[of "{}" ms] by (simp add: uniqueLoop_keepFirst[symmetric] uniqueLoop_firsts)

lemma matchesOf_deduplicate: "matchesOf (deduplicateMatches dp) = matchesOf dp"
  by (simp add: deduplicateMatches_keepFirst matchesOf_def set_keepFirst image_image split_beta)

lemma makeChunks_windows:
  "\<forall>c \<in> set (makeChunks doc 0). \<exists>stop. c_text c = slice doc (c_offset c) stop"
  by (auto simp: makeChunks_eq chunkAt_def)

subsection \<open>The registry\<close>

lemma piiPatterns_nonEmpty: "nonEmptyPatterns piiPatterns"
  by code_simp

lemma piiPatterns_distinct: "distinct (map fst piiPatterns)"
  by code_simp

lemma sortedPatterns_set: "set sortedPatterns = set piiPatterns"
  by (simp add: sortedPatterns_def)

lemma sortedPatterns_nonEmpty: "nonEmptyPatterns sortedPatterns"
  using piiPatterns_nonEmpty by (simp add: nonEmptyPatterns_def list_all_iff sortedPatterns_set)

lemma sortedPatterns_distinct: "distinct (map fst sortedPatterns)"
proof -
  have "mset (map fst sortedPatterns) = mset (map fst piiPatterns)"
    by (simp add: sortedPatterns_def)
  then show ?thesis using piiPatterns_distinct by (metis mset_eq_imp_distinct_iff)
qed

lemma sortedPatterns_lookup: "map_of sortedPatterns = map_of piiPatterns"
  by (rule map_of_inject_set[THEN iffD2, OF sortedPatterns_distinct piiPatterns_distinct sortedPatterns_set])

subsection \<open>What each detector records for a category\<close>

lemma scanEntry_Cons:
  "scanEntry ((k, p) # pats) s off key
     = (if key = k then (case scanMatches k p s off 0 [] of None \<Rightarrow> [] | Some ms \<Rightarrow> ms)
        else scanEntry pats s off key)"
  by (simp add: scanEntry_def)

lemma scanEntry_absent: "key \<notin> set (map fst pats) \<Longrightarrow> scanEntry pats s off key = []"
  by (simp add: scanEntry_def map_of_eq_None_iff[THEN iffD2])

lemma detectStandard_lookup:
  assumes "distinct (map fst pats)" "detectStandard pats s dp = Some res"
  shows "map_of res key
     = (if scanEntry pats s 0 key = [] then map_of dp key
        else Some \<lparr>d_matches = scanEntry pats s 0 key, d_count = length (scanEntry pats s 0 key)\<rparr>)"
  using assms
proof (induction pats arbitrary: dp)
  case Nil
  then show ?case by (simp add: scanEntry_def)
next
  case (Cons entry pats)
  obtain k p where entry: "entry = (k, p)" by (cases entry)
  from Cons.prems(2) entry obtain ms where ms: "scanMatches k p s 0 0 [] = Some ms"
    by (auto split: option.splits)
  let ?dp' = "if length ms > 0 then assign dp k \<lparr>d_matches = ms, d_count = length ms\<rparr> else dp"
  from Cons.prems(2) entry ms have rest: "detectStandard pats s ?dp' = Some res" by simp
  from Cons.prems(1) entry have d: "distinct (map fst pats)" and fresh: "k \<notin> set (map fst pats)"
    by simp_all
  note ih = Cons.IH[OF d rest]
  show ?case
  proof (cases "key = k")
    case True
    with ih scanEntry_absent[OF fresh] ms entry show ?thesis
      by (simp add: scanEntry_Cons map_of_assign)
  next
    case False
    with ih ms entry show ?thesis by (simp add: scanEntry_Cons map_of_assign)
  qed
qed

lemma detectStandard_distinct:
  "detectStandard pats s dp = Some res \<Longrightarrow> distinct (map fst dp) \<Longrightarrow> distinct (map fst res)"
proof (induction pats arbitrary: dp)
  case Nil
  then show ?case by simp
next
  case (Cons entry pats)
  obtain k p where entry: "entry = (k, p)" by (cases entry)
  from Cons.prems(1) entry obtain ms where ms: "scanMatches k p s 0 0 [] = Some ms"
    by (auto split: option.splits)
  let ?dp' = "if length ms > 0 then assign dp k \<lparr>d_matches = ms, d_count = length ms\<rparr> else dp"
  from Cons.prems(1) entry ms have rest: "detectStandard pats s ?dp' = Some res" by simp
  have "distinct (map fst ?dp')" using Cons.prems(2) by (simp add: distinct_assign)
  from Cons.IH[OF rest this] show ?case .
qed

lemma matchesAt_addMatches:
  "matchesAt (addMatches dp k ms) key = matchesAt dp key @ (if key = k then ms else [])"
  by (simp add: matchesAt_def map_of_addMatches)

lemma detectChunk_lookup:
  assumes "distinct (map fst pats)" "detectChunk pats c dp = Some res"
  shows "matchesAt res key = matchesAt dp key @ scanEntry pats (c_text c) (c_offset c) key"
  using assms
proof (induction pats arbitrary: dp)
  case Nil
  then show ?case by (simp add: scanEntry_def)
next
  case (Cons entry pats)
  obtain k p where entry: "entry = (k, p)" by (cases entry)
  from Cons.prems(2) entry obtain ms where ms: "scanMatches k p (c_text c) (c_offset c) 0 [] = Some ms"
    by (auto split: option.splits)
  let ?dp' = "if length ms > 0 then addMatches dp k ms else dp"
  from Cons.prems(2) entry ms have rest: "detectChunk pats c ?dp' = Some res" by simp
  from Cons.prems(1) entry have d: "distinct (map fst pats)" and fresh: "k \<notin> set (map fst pats)"
    by simp_all
  note ih = Cons.IH[OF d rest]
  have step: "matchesAt ?dp' key = matchesAt dp key @ (if key = k then ms else [])"
    by (simp add: matchesAt_addMatches)
  show ?case
  proof (cases "key = k")
    case True
    with ih step scanEntry_absent[OF fresh] ms entry show ?thesis
      by (simp add: scanEntry_Cons)
  next
    case False
    with ih step ms entry show ?thesis by (simp add: scanEntry_Cons)
  qed
qed

lemma detectChunk_distinct:
  "detectChunk pats c dp = Some res \<Longrightarrow> distinct (map fst dp) \<Longrightarrow> distinct (map fst res)"
proof (induction pats arbitrary: dp)
  case Nil
  then show ?case by simp
next
  case (Cons entry pats)
  obtain k p where entry: "entry = (k, p)" by (cases entry)
  from Cons.prems(1) entry obtain ms where ms: "scanMatches k p (c_text c) (c_offset c) 0 [] = Some ms"
    by (auto split: option.splits)
  let ?dp' = "if length ms > 0 then addMatches dp k ms else dp"
  from Cons.prems(1) entry ms have rest: "detectChunk pats c ?dp' = Some res" by simp
  have "distinct (map fst ?dp')" using Cons.prems(2) by (simp add: distinct_addMatches)
  from Cons.IH[OF rest this] show ?case .
qed

lemma runChunks_lookup:
  assumes "runChunks cs i dp = Some res"
  shows "matchesAt res key
     = matchesAt (if i = 0 \<and> cs \<noteq> [] then [] else dp) key
       @ concat (map (\<lambda>c. scanEntry sortedPatterns (c_text c) (c_offset c) key) cs)"
  using assms
proof (induction cs arbitrary: i dp)
  case Nil
  then show ?case by simp
next
  case (Cons c cs)
  from Cons.prems obtain dp' where step: "processChunk c (i = 0) dp = Some dp'"
    and rest: "runChunks cs (i + 1) dp' = Some res" by (auto split: option.splits)
  from detectChunk_lookup[OF sortedPatterns_distinct step[unfolded processChunk_def]]
  have "matchesAt dp' key = matchesAt (if i = 0 then [] else dp) key
      @ scanEntry sortedPatterns (c_text c) (c_offset c) key" .
  with Cons.IH[OF rest] show ?case by simp
qed

lemma runChunks_distinct:
  "runChunks cs i dp = Some res \<Longrightarrow> distinct (map fst dp) \<Longrightarrow> distinct (map fst res)"
proof (induction cs arbitrary: i dp)
  case Nil
  then show ?case by simp
next
  case (Cons c cs)
  from Cons.prems(1) obtain dp' where step: "processChunk c (i = 0) dp = Some dp'"
    and rest: "runChunks cs (i + 1) dp' = Some res" by (auto split: option.splits)
  have "distinct (map fst (if i = 0 then [] else dp))" using Cons.prems(2) by simp
  from detectChunk_distinct[OF step[unfolded processChunk_def] this]
  have "distinct (map fst dp')" .
  from Cons.IH[OF rest this] show ?case .
qed

lemma matchesAt_deduplicate:
  "matchesAt (deduplicateMatches dp) key = keepFirst (matchesAt dp key)"
proof -
  have "map_of (deduplicateMatches dp)
      = map_option (\<lambda>d. \<lparr>d_matches = keepFirst (d_matches d),
                           d_count = length (keepFirst (d_matches d))\<rparr>) \<circ> map_of dp"
    unfolding deduplicateMatches_keepFirst by (rule map_of_map)
  then show ?thesis
    by (cases "map_of dp key") (simp_all add: matchesAt_def keepFirst_def)
qed

lemma keys_deduplicate: "map fst (deduplicateMatches dp) = map fst dp"
  by (simp add: deduplicateMatches_def split_beta)

lemma standard_matchesAt:
  assumes "processStandardText [] doc = Some res"
  shows "matchesAt res key = scanEntry sortedPatterns doc 0 key"
  using detectStandard_lookup[OF sortedPatterns_distinct assms[unfolded processStandardText_def], of key]
  by (simp add: matchesAt_def)

lemma large_matchesAt:
  assumes "processLargeText [] doc = Some res"
  shows "matchesAt res key
     = keepFirst (concat (map (\<lambda>c. scanEntry sortedPatterns (c_text c) (c_offset c) key)
                            (makeChunks doc 0)))"
proof -
  from assms obtain dp' where run: "runChunks (makeChunks doc 0) 0 [] = Some dp'"
    and res: "res = deduplicateMatches dp'"
    by (auto simp: processLargeText_def split: option.splits)
  from runChunks_lookup[OF run, of key] show ?thesis
    unfolding res matchesAt_deduplicate by (simp add: matchesAt_def)
qed

lemma standard_distinct: "processStandardText [] doc = Some res \<Longrightarrow> distinct (map fst res)"
  unfolding processStandardText_def by (erule detectStandard_distinct) simp

lemma large_distinct: "processLargeText [] doc = Some res \<Longrightarrow> distinct (map fst res)"
  by (auto simp: processLargeText_def keys_deduplicate split: option.splits
      dest!: runChunks_distinct)

lemma standard_total: "\<exists>res. processStandardText [] doc = Some res"
  unfolding processStandardText_def by (rule detectStandard_total[OF sortedPatterns_nonEmpty])

lemma large_total: "\<exists>res. processLargeText [] doc = Some res"
  using runChunks_total[OF sortedPatterns_nonEmpty, of "makeChunks doc 0" 0 "[]"]
  by (auto simp: processLargeText_def)

lemma standard_ok:
  assumes "processStandardText [] doc = Some res"
  shows "\<forall>m \<in> matchesOf res. matchOk doc m"
proof (rule detectStandard_inv[OF assms[unfolded processStandardText_def]])
  show "\<forall>m \<in> matchesOf []. matchOk doc m" by (simp add: matchesOf_def)
next
  fix idx e assume "idx \<le> e" "e \<le> length doc"
  then show "matchOk doc \<lparr>m_text = substring doc idx e, m_index = idx + 0\<rparr>"
    by (rule found_in_text)
qed

lemma large_ok:
  assumes "processLargeText [] doc = Some res"
  shows "\<forall>m \<in> matchesOf res. matchOk doc m"
proof -
  from assms obtain dp' where run: "runChunks (makeChunks doc 0) 0 [] = Some dp'"
    and res: "res = deduplicateMatches dp'"
    by (auto simp: processLargeText_def split: option.splits)
  have "\<forall>m \<in> matchesOf dp'. matchOk doc m"
    by (rule runChunks_inv[OF run _ makeChunks_windows]) (simp add: matchesOf_def)
  then show ?thesis unfolding res matchesOf_deduplicate .
qed

text \<open>
  Claim C1. Both detectors return on every document, and every match they record, in any
  category, satisfies the invariant: the document reads the match's text at the match's
  index. For the chunked detector the index is the chunk-local index plus the chunk's
  offset, and the deduplicator only drops matches.
\<close>

theorem C1_match_offsets:
  "(\<exists>dp. processStandardText [] doc = Some dp) \<and> (\<exists>dp. processLargeText [] doc = Some dp)
   \<and> (\<forall>dp key d m.
        processStandardText [] doc = Some dp \<or> processLargeText [] doc = Some dp \<longrightarrow>
        (key, d) \<in> set dp \<longrightarrow> m \<in> set (d_matches d) \<longrightarrow>
        substring doc (m_index m) (m_index m + length (m_text m)) = m_text m)"
proof (intro conjI allI impI)
  show "\<exists>dp. processStandardText [] doc = Some dp" by (rule standard_total)
  show "\<exists>dp. processLargeText [] doc = Some dp" by (rule large_total)
next
  fix dp key d m
  assume run: "processStandardText [] doc = Some dp \<or> processLargeText [] doc = Some dp"
    and entry: "(key, d) \<in> set dp" and m: "m \<in> set (d_matches d)"
  from entry m have "m \<in> matchesOf dp" by (force simp: matchesOf_def)
  moreover from run have "\<forall>m \<in> matchesOf dp. matchOk doc m"
    using standard_ok large_ok by blast
  ultimately show "substring doc (m_index m) (m_index m + length (m_text m)) = m_text m"
    by (simp add: matchOk_def)
qed

lemma email_lookup: "map_of sortedPatterns ''email'' = Some (category emailRx False 1)"
  by (simp add: sortedPatterns_lookup piiPatterns_def)

lemma scanEntry_email:
  "scanMatches ''email'' (category emailRx False 1) s off 0 [] = Some ms
     \<Longrightarrow> scanEntry sortedPatterns s off ''email'' = ms"
  by (simp add: scanEntry_def email_lookup)

lemma scan_small_email:
  "scanMatches ''email'' (category emailRx False 1) ''a@b.co'' 0 0 []
     = Some [\<lparr>m_text = ''a@b.co'', m_index = 0\<rparr>]"
  by code_simp

theorem C1_match_offsets_witness:
  "\<exists>dp d. processStandardText [] ''a@b.co'' = Some dp \<and> (''email'', d) \<in> set dp
      \<and> d_matches d = [\<lparr>m_text = ''a@b.co'', m_index = 0\<rparr>]
      \<and> substring ''a@b.co'' 0 (0 + length ''a@b.co'') = ''a@b.co''"
proof -
  obtain dp where dp: "processStandardText [] ''a@b.co'' = Some dp"
    using standard_total by blast
  have "matchesAt dp ''email'' = [\<lparr>m_text = ''a@b.co'', m_index = 0\<rparr>]"
    using standard_matchesAt[OF dp, of "''email''"] scanEntry_email[OF scan_small_email] by simp
  then obtain d where d: "map_of dp ''email'' = Some d"
    and ms: "d_matches d = [\<lparr>m_text = ''a@b.co'', m_index = 0\<rparr>]"
    by (auto simp: matchesAt_def split: option.splits)
  from d have entry: "(''email'', d) \<in> set dp" by (rule map_of_SomeD)
  from ms have m: "\<lparr>m_text = ''a@b.co'', m_index = 0\<rparr> \<in> set (d_matches d)" by simp
  from C1_match_offsets[of "''a@b.co''"] dp entry m
  have "substring ''a@b.co'' (m_index \<lparr>m_text = ''a@b.co'', m_index = 0\<rparr>)
          (m_index \<lparr>m_text = ''a@b.co'', m_index = 0\<rparr> + length (m_text \<lparr>m_text = ''a@b.co'', m_index = 0\<rparr>))
        = m_text \<lparr>m_text = ''a@b.co'', m_index = 0\<rparr>"
    by blast
  then have "substring ''a@b.co'' 0 (0 + length ''a@b.co'') = ''a@b.co''" by simp
  with dp entry ms show ?thesis by blast
qed

section \<open>The transformer\<close>

text \<open>
  \<open>mstop m\<close> is the end offset of a match. \<open>replaceSegments doc pos ms f\<close> is the
  document from \<open>pos\<close> on with each match of \<open>ms\<close> (in ascending order) replaced by
  \<open>f m\<close> and the text between the matches kept: what replacing every match means when
  the matches do not overlap, which \<open>pairwiseDisjoint\<close> says. \<open>exampleCrypto\<close> is a crypto
  provider for the concrete examples.
\<close>

definition mstop :: "match \<Rightarrow> nat" where
  "mstop m = m_index m + length (m_text m)"



definition exampleCrypto :: crypto where
  "exampleCrypto = \<lparr>secureHash = (\<lambda>t. ''digest''), secureEncrypt = (\<lambda>n t p. ''[ENC:token...]'')\<rparr>"

subsection \<open>The splicing loop\<close>

lemma spliceLoop_count: "snd (spliceLoop cr method pw ms t n) = n + length ms"
  by (induction ms arbitrary: t n) simp_all

lemma replacement_fixed:
  "method \<noteq> ''encrypt'' \<Longrightarrow> replacementFor cr n method pw m = replacementFor cr 0 method pw m"
  by (simp add: replacementFor_def)

lemma spliceLoop_text:
  "method \<noteq> ''encrypt'' \<Longrightarrow>
     fst (spliceLoop cr method pw ms t n)
       = foldl (\<lambda>t m. spliceAt t m (replacementFor cr 0 method pw m)) t ms"
proof (induction ms arbitrary: t n)
  case Nil
  then show ?case by simp
next
  case (Cons m ms)
  then show ?case using replacement_fixed[of "method" cr n pw m] by simp
qed

lemma applyEncryption_eq:
  "applyEncryption cr st doc method pw
     = (fst (spliceLoop cr method pw (sortByIndexDesc (enabledMatches (detectedPII st) (enabledTypes st))) doc 0),
        st\<lparr>processedDataOf := Some
             \<lparr>originalCount = sum_list (map (\<lambda>(type, data). d_count data) (detectedPII st)),
              processedCount = length (enabledMatches (detectedPII st) (enabledTypes st)),
              p_method = method, securityLevel = getSecurityLevel method\<rparr>\<rparr>)"
proof -
  let ?all = "sortByIndexDesc (enabledMatches (detectedPII st) (enabledTypes st))"
  have "snd (spliceLoop cr method pw ?all doc 0) = length (enabledMatches (detectedPII st) (enabledTypes st))"
    by (simp add: spliceLoop_count sortByIndexDesc_def)
  then show ?thesis
    by (simp add: applyEncryption_def Let_def split_beta)
qed

subsection \<open>Splicing disjoint matches from the right\<close>

lemma spliceAt_eq: "spliceAt t m r = take (m_index m) t @ r @ drop (mstop m) t"
  by (simp add: spliceAt_def slice_def sliceFrom_def mstop_def Let_def)















definition exampleTool :: tool where
  "exampleTool =
     \<lparr>detectedPII = [(''phone'', \<lparr>d_matches = [\<lparr>m_text = ''555'', m_index = 5\<rparr>], d_count = 1\<rparr>),
                     (''zipCode'', \<lparr>d_matches = [\<lparr>m_text = ''777'', m_index = 12\<rparr>], d_count = 1\<rparr>),
                     (''firstName'', \<lparr>d_matches = [\<lparr>m_text = ''now'', m_index = 16\<rparr>], d_count = 1\<rparr>)],
      enabledTypes = [''zipCode'', ''phone''], processedText = [], processedDataOf = None\<rparr>"





section \<open>The password policy\<close>

definition freshTool :: tool where
  \<comment> \<open>The tool before any analysis, with every category enabled.\<close>
  "freshTool = \<lparr>detectedPII = [], enabledTypes = map fst piiPatterns, processedText = [],
                 processedDataOf = None\<rparr>"

lemma trim_blank: "trim [] = []"
  by (simp add: trim_def)

lemma trim_example: "trim ''call 555 or 777 now'' = ''call 555 or 777 now''"
  by code_simp

lemma trim_spaces: "trim ''   '' = []"
  by code_simp

text \<open>
  Claim C6, as amended. With method \<open>encrypt\<close> and a password of fewer than 8 characters
  \<open>processText\<close> reports an error and leaves the tool as it was: nothing is spliced and
  no processed text or statistics are stored. The checks for an empty document and for an
  empty detection result come first: the error is the empty-input error when the trimmed
  document is empty, the nothing-detected error when the trimmed document is not empty and
  nothing has been detected, and the policy error (password required for the empty
  password, password too short otherwise) in every other case.
\<close>

theorem C6_short_password:
  "length pw < 8 \<longrightarrow>
     fst (processText cr st doc ''encrypt'' pw) = st
     \<and> snd (processText cr st doc ''encrypt'' pw) \<noteq> None
     \<and> (trim doc = [] \<longrightarrow>
          snd (processText cr st doc ''encrypt'' pw) = Some EmptyInputError)
     \<and> (trim doc \<noteq> [] \<and> detectedPII st = [] \<longrightarrow>
          snd (processText cr st doc ''encrypt'' pw) = Some NothingDetectedError)
     \<and> (trim doc \<noteq> [] \<and> detectedPII st \<noteq> [] \<longrightarrow>
          snd (processText cr st doc ''encrypt'' pw)
            = Some (PolicyError (if pw = [] then PasswordRequired else PasswordTooShort)))"
  by (simp add: processText_def Let_def)

theorem C6_short_password_witness:
  "processText exampleCrypto exampleTool ''call 555 or 777 now'' ''encrypt'' ''1234567''
     = (exampleTool, Some (PolicyError PasswordTooShort))
   \<and> processText exampleCrypto exampleTool ''call 555 or 777 now'' ''encrypt'' []
     = (exampleTool, Some (PolicyError PasswordRequired))
   \<and> processText exampleCrypto exampleTool ''   '' ''encrypt'' ''1234567''
     = (exampleTool, Some EmptyInputError)
   \<and> processText exampleCrypto freshTool ''call 555 or 777 now'' ''encrypt'' ''1234567''
     = (freshTool, Some NothingDetectedError)"
proof -
  have st: "detectedPII exampleTool \<noteq> []" by (simp add: exampleTool_def)
  have fr: "detectedPII freshTool = []" by (simp add: freshTool_def)
  have doc: "trim ''call 555 or 777 now'' \<noteq> []" by (simp add: trim_example)
  from C6_short_password[of "''1234567''" exampleCrypto exampleTool "''call 555 or 777 now''"] st doc
  have a: "processText exampleCrypto exampleTool ''call 555 or 777 now'' ''encrypt'' ''1234567''
     = (exampleTool, Some (PolicyError PasswordTooShort))"
    by (simp add: prod_eq_iff)
  from C6_short_password[of "[]" exampleCrypto exampleTool "''call 555 or 777 now''"] st doc
  have b: "processText exampleCrypto exampleTool ''call 555 or 777 now'' ''encrypt'' []
     = (exampleTool, Some (PolicyError PasswordRequired))"
    by (simp add: prod_eq_iff)
  from C6_short_password[of "''1234567''" exampleCrypto exampleTool "''   ''"] trim_spaces
  have c: "processText exampleCrypto exampleTool ''   '' ''encrypt'' ''1234567''
     = (exampleTool, Some EmptyInputError)"
    by (simp add: prod_eq_iff)
  from C6_short_password[of "''1234567''" exampleCrypto freshTool "''call 555 or 777 now''"] fr doc
  have d: "processText exampleCrypto freshTool ''call 555 or 777 now'' ''encrypt'' ''1234567''
     = (freshTool, Some NothingDetectedError)"
    by (simp add: prod_eq_iff)
  from a b c d show ?thesis by simp
qed

text \<open>
  The claim as stated fails: on an empty document, and on a document for which nothing
  has been detected, the error reported is not the policy error.
\<close>

theorem C6_counterexample:
  "processText exampleCrypto exampleTool [] ''encrypt'' ''1234567''
     = (exampleTool, Some EmptyInputError)
   \<and> processText exampleCrypto freshTool ''call 555 or 777 now'' ''encrypt'' ''1234567''
     = (freshTool, Some NothingDetectedError)"
  by (simp add: processText_def Let_def trim_blank trim_example freshTool_def)

section \<open>Methods outside the four\<close>

lemma splice_own_text:
  assumes "matchOk t m"
  shows "spliceAt t m (m_text m) = t"
proof -
  let ?i = "m_index m" and ?n = "length (m_text m)"
  from assms have own: "take ?n (drop ?i t) = m_text m"
    by (simp add: matchOk_def substring_take_drop)
  have "take ?n (drop ?i t) @ drop (?i + ?n) t = drop ?i t"
    by (metis add.commute append_take_drop_id drop_drop)
  with own have "m_text m @ drop (?i + ?n) t = drop ?i t" by simp
  then have "take ?i t @ m_text m @ drop (?i + ?n) t = t" by simp
  then show ?thesis by (simp add: spliceAt_eq mstop_def)
qed

lemma spliceAll_own_text:
  "\<forall>m \<in> set ms. matchOk t m \<Longrightarrow> foldl (\<lambda>t m. spliceAt t m (m_text m)) t ms = t"
  by (induction ms) (simp_all add: splice_own_text)

lemma other_replacement:
  "method \<notin> {''mask'', ''hash'', ''encrypt'', ''redact''} \<Longrightarrow> replacementFor cr n method pw m = m_text m"
  by (simp add: replacementFor_def)

lemma other_level:
  "method \<notin> {''mask'', ''hash'', ''encrypt'', ''redact''} \<Longrightarrow>
     getSecurityLevel method
       = (if method \<in> set objectPrototypeKeys then JsInherited method else JsString ''None'')"
  by (simp add: getSecurityLevel_def levels_def)

lemma other_method_noop:
  assumes "method \<notin> {''mask'', ''hash'', ''encrypt'', ''redact''}"
    and "\<forall>m \<in> set (enabledMatches (detectedPII st) (enabledTypes st)). matchOk doc m"
  shows "fst (applyEncryption cr st doc method pw) = doc"
    and "processedDataOf (snd (applyEncryption cr st doc method pw))
       = Some \<lparr>originalCount = sum_list (map (\<lambda>(type, data). d_count data) (detectedPII st)),
                processedCount = length (enabledMatches (detectedPII st) (enabledTypes st)),
                p_method = method,
                securityLevel = (if method \<in> set objectPrototypeKeys then JsInherited method
                                 else JsString ''None'')\<rparr>"
proof -
  from assms(1) have ne: "method \<noteq> ''encrypt''" by auto
  have "fst (applyEncryption cr st doc method pw)
      = foldl (\<lambda>t m. spliceAt t m (m_text m)) doc
          (sortByIndexDesc (enabledMatches (detectedPII st) (enabledTypes st)))"
    using other_replacement[OF assms(1)] by (simp add: applyEncryption_eq spliceLoop_text[OF ne])
  also have "\<dots> = doc"
    using assms(2) by (intro spliceAll_own_text) (simp add: sortByIndexDesc_def)
  finally show "fst (applyEncryption cr st doc method pw) = doc" .
  show "processedDataOf (snd (applyEncryption cr st doc method pw))
       = Some \<lparr>originalCount = sum_list (map (\<lambda>(type, data). d_count data) (detectedPII st)),
                processedCount = length (enabledMatches (detectedPII st) (enabledTypes st)),
                p_method = method,
                securityLevel = (if method \<in> set objectPrototypeKeys then JsInherited method
                                 else JsString ''None'')\<rparr>"
    by (simp add: applyEncryption_eq other_level[OF assms(1)])
qed

text \<open>
  Claim C10, at the method string \<open>constructor\<close>, which is none of the four methods: the
  security level stored is not the string \<open>None\<close> but the member that the object
  \<open>levels\<close> inherits under that name. For a method string outside the four that names no
  member of \<open>Object.prototype\<close> the claim holds (\<open>other_method_noop\<close>).
\<close>

theorem C10_inherited_level:
  "processedDataOf (snd (applyEncryption cr st doc ''constructor'' pw))
     = Some \<lparr>originalCount = sum_list (map (\<lambda>(type, data). d_count data) (detectedPII st)),
              processedCount = length (enabledMatches (detectedPII st) (enabledTypes st)),
              p_method = ''constructor'',
              securityLevel = JsInherited ''constructor''\<rparr>
   \<and> getSecurityLevel ''constructor'' \<noteq> JsString ''None''
   \<and> ''constructor'' \<notin> {''mask'', ''hash'', ''encrypt'', ''redact''}"
  by (simp add: applyEncryption_eq getSecurityLevel_def levels_def objectPrototypeKeys_def)

section \<open>The email example\<close>

definition contactExample :: string where
  "contactExample = ''Contact john.doe@email.com now''"

lemma enabledMatches_single:
  "distinct (map fst dp) \<Longrightarrow> enabledMatches dp [k] = matchesAt dp k"
proof (induction dp)
  case Nil
  then show ?case by (simp add: enabledMatches_def matchesAt_def)
next
  case (Cons entry dp)
  obtain k' d where entry: "entry = (k', d)" by (cases entry)
  from Cons have ih: "enabledMatches dp [k] = matchesAt dp k" by simp
  show ?case
  proof (cases "k' = k")
    case True
    with Cons.prems entry have "map_of dp k = None" by (simp add: map_of_eq_None_iff)
    then have "matchesAt dp k = []" by (simp add: matchesAt_def)
    with ih have "enabledMatches dp [k] = []" by simp
    with True entry show ?thesis by (simp add: enabledMatches_def matchesAt_def)
  next
    case False
    with ih entry show ?thesis by (simp add: enabledMatches_def matchesAt_def)
  qed
qed

lemma standard_entry:
  assumes "processStandardText [] doc = Some dp" "scanEntry sortedPatterns doc 0 key = ms" "ms \<noteq> []"
  shows "map_of dp key = Some \<lparr>d_matches = ms, d_count = length ms\<rparr>"
  using detectStandard_lookup[OF sortedPatterns_distinct assms(1)[unfolded processStandardText_def], of key]
    assms(2,3) by simp

lemma scan_contact_email:
  "scanMatches ''email'' (category emailRx False 1) contactExample 0 0 []
     = Some [\<lparr>m_text = ''john.doe@email.com'', m_index = 8\<rparr>]"
  by code_simp

lemma mask_replacement:
  "replacementFor cr n ''mask'' pw m = replicate (length (m_text m)) CHR ''*''"
  by (simp add: replacementFor_def)

lemma mask_contact:
  assumes "processStandardText [] contactExample = Some dp"
  shows "map_of dp ''email''
       = Some \<lparr>d_matches = [\<lparr>m_text = ''john.doe@email.com'', m_index = 8\<rparr>], d_count = 1\<rparr>"
    and "fst (applyEncryption cr \<lparr>detectedPII = dp, enabledTypes = [''email''],
                                   processedText = [], processedDataOf = None\<rparr>
               contactExample ''mask'' pw)
       = ''Contact ****************** now''"
proof -
  have scan: "scanEntry sortedPatterns contactExample 0 ''email''
      = [\<lparr>m_text = ''john.doe@email.com'', m_index = 8\<rparr>]"
    by (rule scanEntry_email[OF scan_contact_email])
  from standard_entry[OF assms scan]
  show entry: "map_of dp ''email''
       = Some \<lparr>d_matches = [\<lparr>m_text = ''john.doe@email.com'', m_index = 8\<rparr>], d_count = 1\<rparr>"
    by simp
  have "enabledMatches dp [''email''] = [\<lparr>m_text = ''john.doe@email.com'', m_index = 8\<rparr>]"
    using enabledMatches_single[OF standard_distinct[OF assms], of "''email''"] entry
    by (simp add: matchesAt_def)
  then show "fst (applyEncryption cr \<lparr>detectedPII = dp, enabledTypes = [''email''],
                                   processedText = [], processedDataOf = None\<rparr>
               contactExample ''mask'' pw)
       = ''Contact ****************** now''"
    by (simp add: applyEncryption_eq spliceLoop_text mask_replacement sortByIndexDesc_def
        spliceAt_eq mstop_def contactExample_def)
qed

lemma mask_keeps_length:
  assumes "matchOk doc m \<or> mstop m \<le> length t" "length t = length doc"
  shows "length (spliceAt t m (replicate (length (m_text m)) c)) = length doc"
proof -
  let ?i = "m_index m" and ?n = "length (m_text m)"
  have "?n = 0 \<or> ?i + ?n \<le> length t"
  proof (cases "matchOk doc m")
    case True
    then have "take ?n (drop ?i doc) = m_text m"
      by (simp add: matchOk_def substring_take_drop)
    then have "length (take ?n (drop ?i doc)) = ?n" by simp
    then have "?n \<le> length doc - ?i" by simp
    then show ?thesis using assms(2) by arith
  next
    case False
    with assms(1) show ?thesis by (simp add: mstop_def)
  qed
  moreover have "length (spliceAt t m (replicate ?n c))
      = min (length t) ?i + ?n + (length t - (?i + ?n))"
    by (simp add: spliceAt_eq mstop_def)
  ultimately show ?thesis using assms(2) by arith
qed

lemma mask_all_keeps_length:
  "\<forall>m \<in> set ms. matchOk doc m \<Longrightarrow> length t = length doc \<Longrightarrow>
     length (foldl (\<lambda>t m. spliceAt t m (replicate (length (m_text m)) c)) t ms) = length doc"
proof (induction ms arbitrary: t)
  case Nil
  then show ?case by simp
next
  case (Cons m ms)
  from Cons.prems have "length (spliceAt t m (replicate (length (m_text m)) c)) = length doc"
    by (intro mask_keeps_length) simp_all
  with Cons show ?case by simp
qed

lemma enabledMatches_subset: "set (enabledMatches dp enabled) \<subseteq> matchesOf dp"
  by (auto simp: enabledMatches_def matchesOf_def split: if_splits)

lemma mask_length:
  assumes "processStandardText [] doc = Some dp"
  shows "length (fst (applyEncryption cr \<lparr>detectedPII = dp, enabledTypes = enabled,
                                           processedText = old, processedDataOf = pd\<rparr>
                       doc ''mask'' pw)) = length doc"
proof -
  have "\<forall>m \<in> set (sortByIndexDesc (enabledMatches dp enabled)). matchOk doc m"
    using standard_ok[OF assms] enabledMatches_subset[of dp enabled]
    by (auto simp: sortByIndexDesc_def)
  then show ?thesis
    by (simp add: applyEncryption_eq spliceLoop_text mask_replacement mask_all_keeps_length)
qed


text \<open>
  Claim C8, as amended. On \<open>Contact john.doe@email.com now\<close> the detector records
  exactly one match in the category \<open>email\<close>, the text \<open>john.doe@email.com\<close> at index 8.
  Masking replaces a match by as many asterisks as its text has characters, so with
  \<open>email\<close> the only enabled category the output is \<open>Contact\<close>, a space, 18 asterisks
  (the match has 18 characters), a space and \<open>now\<close>; and with any set of enabled
  categories the output has the 30 characters of the input.
\<close>

theorem C8_email_example:
  "contactExample = ''Contact john.doe@email.com now''
   \<and> replacementFor cr n ''mask'' pw m = replicate (length (m_text m)) CHR ''*''
   \<and> (\<exists>dp. processStandardText [] contactExample = Some dp
          \<and> map_of dp ''email''
              = Some \<lparr>d_matches = [\<lparr>m_text = ''john.doe@email.com'', m_index = 8\<rparr>], d_count = 1\<rparr>
          \<and> fst (applyEncryption cr \<lparr>detectedPII = dp, enabledTypes = [''email''],
                                        processedText = [], processedDataOf = None\<rparr>
                    contactExample ''mask'' pw)
              = ''Contact '' @ replicate 18 CHR ''*'' @ '' now''
          \<and> length (fst (applyEncryption cr \<lparr>detectedPII = dp, enabledTypes = enabled,
                                                processedText = [], processedDataOf = None\<rparr>
                            contactExample ''mask'' pw)) = 30)"
proof -
  obtain dp where dp: "processStandardText [] contactExample = Some dp"
    using standard_total by blast
  have len: "length (fst (applyEncryption cr \<lparr>detectedPII = dp, enabledTypes = enabled,
                                                processedText = [], processedDataOf = None\<rparr>
                            contactExample ''mask'' pw)) = 30"
    using mask_length[OF dp, of cr enabled "[]" None pw] by (simp add: contactExample_def)
  from mask_contact(1)[OF dp] mask_contact(2)[OF dp, of cr pw] dp len
  have "\<exists>dp. processStandardText [] contactExample = Some dp
          \<and> map_of dp ''email''
              = Some \<lparr>d_matches = [\<lparr>m_text = ''john.doe@email.com'', m_index = 8\<rparr>], d_count = 1\<rparr>
          \<and> fst (applyEncryption cr \<lparr>detectedPII = dp, enabledTypes = [''email''],
                                        processedText = [], processedDataOf = None\<rparr>
                    contactExample ''mask'' pw)
              = ''Contact '' @ replicate 18 CHR ''*'' @ '' now''
          \<and> length (fst (applyEncryption cr \<lparr>detectedPII = dp, enabledTypes = enabled,
                                                processedText = [], processedDataOf = None\<rparr>
                            contactExample ''mask'' pw)) = 30"
    by (intro exI[of _ dp]) (simp add: numeral_eq_Suc)
  then show ?thesis by (simp add: mask_replacement contactExample_def)
qed

theorem C8_email_example_witness:
  "\<exists>dp. processStandardText [] contactExample = Some dp
      \<and> fst (applyEncryption exampleCrypto \<lparr>detectedPII = dp, enabledTypes = [''email''],
                                            processedText = [], processedDataOf = None\<rparr>
                contactExample ''mask'' [])
          = ''Contact ****************** now''"
  using C8_email_example[of exampleCrypto 0 "[]" "\<lparr>m_text = [], m_index = 0\<rparr>" "[]"]
  by (auto simp: numeral_eq_Suc)

text \<open>
  The claim as stated fails: the output it gives has 19 asterisks and 31 characters.
  Neither with \<open>email\<close> alone nor with every category enabled (the tool's initial
  setting) is that the masked text.
\<close>

theorem C8_counterexample:
  "fst (applyEncryption exampleCrypto
          \<lparr>detectedPII = the (processStandardText [] contactExample), enabledTypes = [''email''],
           processedText = [], processedDataOf = None\<rparr>
          contactExample ''mask'' [])
     \<noteq> ''Contact ******************* now''
   \<and> fst (applyEncryption exampleCrypto
          \<lparr>detectedPII = the (processStandardText [] contactExample),
           enabledTypes = map fst piiPatterns, processedText = [], processedDataOf = None\<rparr>
          contactExample ''mask'' [])
     \<noteq> ''Contact ******************* now''"
proof -
  obtain dp where dp: "processStandardText [] contactExample = Some dp"
    using standard_total by blast
  have "length (fst (applyEncryption exampleCrypto
          \<lparr>detectedPII = dp, enabledTypes = map fst piiPatterns, processedText = [],
           processedDataOf = None\<rparr> contactExample ''mask'' [])) = 30"
    using mask_length[OF dp, of exampleCrypto "map fst piiPatterns" "[]" None "[]"]
    by (simp add: contactExample_def)
  then have "fst (applyEncryption exampleCrypto
          \<lparr>detectedPII = dp, enabledTypes = map fst piiPatterns, processedText = [],
           processedDataOf = None\<rparr> contactExample ''mask'' [])
     \<noteq> ''Contact ******************* now''"
    by auto
  with mask_contact(2)[OF dp, of exampleCrypto "[]"] dp show ?thesis by simp
qed

section \<open>Chunked versus single-pass detection\<close>

text \<open>
  A match attempt only inspects the characters of the word it runs over and the character next
  to it.  The lemmas below move an evaluation of the matcher from a long document to the short
  window that holds the candidate, so that the matcher is evaluated on the window alone.
\<close>

fun rejects :: "bool \<Rightarrow> regex \<Rightarrow> char \<Rightarrow> bool" where
  "rejects ic Eps c = True"
| "rejects ic (Lit x) c = (\<not> classMatches ic [(x, x)] c)"
| "rejects ic (Cls rs) c = (\<not> classMatches ic rs c)"
| "rejects ic WordB c = True"
| "rejects ic (Seq r1 r2) c = (rejects ic r1 c \<and> rejects ic r2 c)"
| "rejects ic (Alt r1 r2) c = (rejects ic r1 c \<and> rejects ic r2 c)"
| "rejects ic (Rep lo hi g r) c = rejects ic r c"
| "rejects ic (NotAhead r) c = rejects ic r c"

definition windowOf :: "string \<Rightarrow> nat \<Rightarrow> string \<Rightarrow> bool \<Rightarrow> regex \<Rightarrow> bool" where
  "windowOf s b w ic r =
     (b + length w \<le> length s \<and> take (length w) (drop b s) = w
      \<and> (b = 0 \<or> \<not> isWordChar (s ! (b - 1)))
      \<and> (b + length w = length s
          \<or> (\<not> isWordChar (s ! (b + length w)) \<and> rejects ic r (s ! (b + length w)))))"

lemma window_char:
  assumes "windowOf s b w ic r" "j < length w"
  shows "s ! (b + j) = w ! j"
proof -
  from assms(1) have eq: "take (length w) (drop b s) = w" and le: "b + length w \<le> length s"
    by (simp_all add: windowOf_def)
  have "take (length w) (drop b s) ! j = s ! (b + j)" using assms(2) le by simp
  with eq show ?thesis by simp
qed

lemma window_wordAt:
  assumes "windowOf s b w ic r" "j \<le> length w"
  shows "wordAt s (b + j) = wordAt w j"
proof (cases "j < length w")
  case True
  with assms show ?thesis using window_char[OF assms(1) True] by (simp add: wordAt_def windowOf_def)
next
  case False
  with assms have j: "j = length w" by simp
  from assms(1) have "b + length w = length s \<or> \<not> isWordChar (s ! (b + length w))"
    by (auto simp: windowOf_def)
  with j show ?thesis by (auto simp: wordAt_def)
qed

lemma window_boundary:
  assumes "windowOf s b w ic r" "i \<le> length w"
  shows "isBoundary s (b + i) = isBoundary w i"
proof (cases i)
  case 0
  have "\<not> (0 < b \<and> wordAt s (b - 1))"
    using assms(1) by (auto simp: windowOf_def wordAt_def)
  then have "isBoundary s b = wordAt s b" by (auto simp: isBoundary_def)
  moreover have "isBoundary w 0 = wordAt w 0" by (simp add: isBoundary_def)
  ultimately show ?thesis using 0 window_wordAt[OF assms(1), of 0] by simp
next
  case (Suc i')
  with assms(2) have "i' \<le> length w" by simp
  from window_wordAt[OF assms(1) this] window_wordAt[OF assms(1) assms(2)] Suc
  show ?thesis by (simp add: isBoundary_def)
qed

lemma window_class:
  assumes "windowOf s b w ic r" "i \<le> length w"
    and rej: "b + length w < length s \<Longrightarrow> \<not> classMatches ic rs (s ! (b + length w))"
  shows "(b + i < length s \<and> classMatches ic rs (s ! (b + i)))
       = (i < length w \<and> classMatches ic rs (w ! i))"
proof (cases "i < length w")
  case True
  with assms(1) have "b + i < length s" by (simp add: windowOf_def)
  with True window_char[OF assms(1) True] show ?thesis by simp
next
  case False
  with assms(2) have "i = length w" by simp
  with rej show ?thesis by auto
qed

lemma window_rejected:
  "windowOf s b w ic r \<Longrightarrow> b + length w < length s \<Longrightarrow> rejects ic r (s ! (b + length w))"
  by (auto simp: windowOf_def)

lemma windowOf_sub:
  "windowOf s b w ic r \<Longrightarrow> (\<And>c. rejects ic r c \<Longrightarrow> rejects ic r' c) \<Longrightarrow> windowOf s b w ic r'"
  by (auto simp: windowOf_def)


lemma matchRx_window:
  assumes "windowOf s b w ic r"
    and "\<forall>j \<le> length w. ks (b + j) = map_option f (k j)"
    and "i \<le> length w"
  shows "matchRx ic s r ks (b + i) = map_option f (matchRx ic w r k i)"
  using assms
proof (induction ic w r k i arbitrary: ks f rule: matchRx.induct)
  case (1 ic w k i)
  then show ?case by simp
next
  case (2 ic w c k i)
  have "(b + i < length s \<and> classMatches ic [(c, c)] (s ! (b + i)))
       = (i < length w \<and> classMatches ic [(c, c)] (w ! i))"
    using window_rejected[OF "2.prems"(1)] by (intro window_class[OF "2.prems"(1,3)]) simp
  moreover have "ks (Suc (b + i)) = map_option f (k (Suc i))" if "i < length w"
    using that "2.prems"(2)[rule_format, of "Suc i"] by simp
  ultimately show ?case by auto
next
  case (3 ic w rs k i)
  have "(b + i < length s \<and> classMatches ic rs (s ! (b + i)))
       = (i < length w \<and> classMatches ic rs (w ! i))"
    using window_rejected[OF "3.prems"(1)] by (intro window_class[OF "3.prems"(1,3)]) simp
  moreover have "ks (Suc (b + i)) = map_option f (k (Suc i))" if "i < length w"
    using that "3.prems"(2)[rule_format, of "Suc i"] by simp
  ultimately show ?case by auto
next
  case (4 ic w k i)
  then show ?case using window_boundary[OF "4.prems"(1,3)] by simp
next
  case (5 ic w r1 r2 k i)
  have w1: "windowOf s b w ic r1" and w2: "windowOf s b w ic r2"
    using "5.prems"(1) by (auto intro: windowOf_sub)
  have inner: "\<forall>j \<le> length w. matchRx ic s r2 ks (b + j) = map_option f (matchRx ic w r2 k j)"
    using "5.IH"(1)[OF w2 "5.prems"(2)] by simp
  from "5.IH"(2)[OF w1 inner "5.prems"(3)] show ?case by simp
next
  case (6 ic w r1 r2 k i)
  have w1: "windowOf s b w ic r1" and w2: "windowOf s b w ic r2"
    using "6.prems"(1) by (auto intro: windowOf_sub)
  note a = "6.IH"(1)[OF w1 "6.prems"(2,3)]
  show ?case
  proof (cases "matchRx ic w r1 k i")
    case None
    with a "6.IH"(2)[OF None w2 "6.prems"(2,3)] show ?thesis by simp
  next
    case (Some e)
    with a show ?thesis by simp
  qed
next
  case (7 ic w r k i)
  have w1: "windowOf s b w ic r" using "7.prems"(1) by (auto intro: windowOf_sub)
  have "\<forall>j \<le> length w. Some (b + j) = map_option (\<lambda>e. b + e) (Some j)" by simp
  from "7.IH"[OF w1 this "7.prems"(3)]
  have "matchRx ic s r Some (b + i) = map_option (\<lambda>e. b + e) (matchRx ic w r Some i)" .
  moreover have "ks (b + i) = map_option f (k i)" using "7.prems"(2,3) by simp
  ultimately show ?case by (cases "matchRx ic w r Some i") simp_all
next
  case (8 ic w lo hi g r k i)
  have w1: "windowOf s b w ic r" using "8.prems"(1) by (auto intro: windowOf_sub)
  have wr: "windowOf s b w ic (Rep lo' hi' g r)" for lo' hi'
    using "8.prems"(1) by (auto intro: windowOf_sub)
  have here: "ks (b + i) = map_option f (k i)" using "8.prems"(2,3) by simp
  have len: "b + length w \<le> length s" using "8.prems"(1) by (simp add: windowOf_def)
  note unfS = matchRx.simps(8)[of ic s lo hi g r ks "b + i"]
  note unfW = matchRx.simps(8)[of ic w lo hi g r k i]
  let ?loopS = "\<lambda>j. if b + i < j \<and> j \<le> length s
                     then matchRx ic s (Rep 0 (decMax hi) g r) ks j else None"
  let ?loopW = "\<lambda>j. if i < j \<and> j \<le> length w
                     then matchRx ic w (Rep 0 (decMax hi) g r) k j else None"
  show ?case
  proof (cases "hi = Some 0")
    case True
    with here show ?thesis unfolding unfS unfW by simp
  next
    case nz: False
    show ?thesis
    proof (cases "0 < lo")
      case True
      have inner: "\<forall>j \<le> length w. matchRx ic s (Rep (lo - 1) (decMax hi) g r) ks (b + j)
          = map_option f (matchRx ic w (Rep (lo - 1) (decMax hi) g r) k j)"
        using "8.IH"(1)[OF nz True wr "8.prems"(2)] by simp
      from "8.IH"(2)[OF nz True w1 inner "8.prems"(3)] nz True
      show ?thesis unfolding unfS unfW by simp
    next
      case lo0: False
      have loops: "\<forall>j \<le> length w. ?loopS (b + j) = map_option f (?loopW j)"
        if ih: "\<And>x ks f. i < x \<and> x \<le> length w \<Longrightarrow> windowOf s b w ic (Rep 0 (decMax hi) g r) \<Longrightarrow>
                  \<forall>j \<le> length w. ks (b + j) = map_option f (k j) \<Longrightarrow> x \<le> length w \<Longrightarrow>
                  matchRx ic s (Rep 0 (decMax hi) g r) ks (b + x)
                    = map_option f (matchRx ic w (Rep 0 (decMax hi) g r) k x)"
      proof (intro allI impI)
        fix j assume j: "j \<le> length w"
        show "?loopS (b + j) = map_option f (?loopW j)"
        proof (cases "i < j")
          case True
          with j len ih[of j ks f, OF _ wr "8.prems"(2)] show ?thesis by simp
        next
          case False
          then show ?thesis by simp
        qed
      qed
      show ?thesis
      proof (cases g)
        case True
        have l: "\<forall>j \<le> length w. ?loopS (b + j) = map_option f (?loopW j)"
          by (rule loops) (rule "8.IH"(3)[OF nz lo0 True])
        from "8.IH"(4)[OF nz lo0 True w1 l "8.prems"(3)]
        have "matchRx ic s r ?loopS (b + i) = map_option f (matchRx ic w r ?loopW i)" .
        with nz lo0 True here show ?thesis
          unfolding unfS unfW by (cases "matchRx ic w r ?loopW i") simp_all
      next
        case False
        show ?thesis
        proof (cases "k i")
          case (Some e)
          with nz lo0 False here show ?thesis unfolding unfS unfW by simp
        next
          case None
          have l: "\<forall>j \<le> length w. ?loopS (b + j) = map_option f (?loopW j)"
            by (rule loops) (rule "8.IH"(5)[OF nz lo0 False None])
          from "8.IH"(6)[OF nz lo0 False None w1 l "8.prems"(3)]
          have "matchRx ic s r ?loopS (b + i) = map_option f (matchRx ic w r ?loopW i)" .
          with nz lo0 False here None show ?thesis unfolding unfS unfW by simp
        qed
      qed
    qed
  qed
qed

subsection \<open>A document with an address across the end of the first chunk\<close>

definition boundaryDocument :: string where
  "boundaryDocument = replicate 9983 CHR ''!'' @ ''john.doe@email.com'' @ replicate 40000 CHR ''!''"

definition triples :: "detected \<Rightarrow> (string \<times> nat \<times> string) multiset" where
  "triples dp = mset (concat (map (\<lambda>(key, d). map (\<lambda>m. (key, m_index m, m_text m)) (d_matches d)) dp))"

definition emailPii :: pii where
  "emailPii = category emailRx False 1"

lemma emailPii_fields:
  "source (pattern emailPii) = emailRx" "global (pattern emailPii)" "\<not> ignoreCase (pattern emailPii)"
  "\<not> contextAware emailPii"
  by (simp_all add: emailPii_def category_def)

lemma email_shape:
  "\<exists>rest. emailRx = Seq WordB (Seq (Rep 1 None True (Cls (upperR @ lowerR @ digitR @ map ch ''._%+-''))) rest)"
  by (simp add: emailRx_def rxPlus_def)

lemma bang_not_email:
  "\<not> classMatches False (upperR @ lowerR @ digitR @ map ch ''._%+-'') CHR ''!''"
  by code_simp

lemma email_fails:
  assumes "length s \<le> p \<or> s ! p = CHR ''!''"
  shows "matchRx False s emailRx k p = None"
proof -
  let ?C = "upperR @ lowerR @ digitR @ map ch ''._%+-''"
  from email_shape obtain rest where shape: "emailRx = Seq WordB (Seq (Rep 1 None True (Cls ?C)) rest)"
    by blast
  have no: "\<not> (p < length s \<and> classMatches False ?C (s ! p))"
    using assms bang_not_email by auto
  have "matchRx False s (Rep 1 None True (Cls ?C)) K p = None" for K
    using no by (subst matchRx.simps(8)) auto
  then show ?thesis unfolding shape by simp
qed

lemma bang_rejected: "rejects False emailRx CHR ''!''"
  by code_simp

lemma bang_not_word: "\<not> isWordChar CHR ''!''"
  by code_simp

lemma email_small: "matchRx False ''john.doe@email.com'' emailRx Some 0 = Some 18"
  by code_simp

lemma email_small_cut: "matchRx False ''john.doe@email.co'' emailRx Some 0 = Some 17"
  by code_simp

lemma execFrom_skip:
  assumes "\<forall>p. i \<le> p \<and> p < j \<longrightarrow> matchRx ic s r Some p = None" "i \<le> j" "j \<le> length s"
  shows "execFrom ic r s i = execFrom ic r s j"
  using assms
proof (induction "j - i" arbitrary: i)
  case 0
  then show ?case by simp
next
  case (Suc d)
  then have lt: "i < j" by simp
  with Suc.prems have "matchRx ic s r Some i = None" "\<not> length s < i" by auto
  then have "execFrom ic r s i = execFrom ic r s (i + 1)"
    by (subst execFrom.simps) simp
  also have "\<dots> = execFrom ic r s j"
    using Suc.hyps Suc.prems lt by (intro Suc.hyps(1)) auto
  finally show ?case .
qed

lemma execFrom_none:
  assumes "\<forall>p. i \<le> p \<and> p \<le> length s \<longrightarrow> matchRx ic s r Some p = None"
  shows "execFrom ic r s i = None"
  using assms
proof (induction "Suc (length s) - i" arbitrary: i)
  case 0
  then show ?case by (subst execFrom.simps) simp
next
  case (Suc d)
  show ?case
  proof (cases "length s < i")
    case True
    then show ?thesis by (subst execFrom.simps) simp
  next
    case False
    with Suc.prems have "matchRx ic s r Some i = None" by auto
    with False have "execFrom ic r s i = execFrom ic r s (i + 1)"
      by (subst execFrom.simps) simp
    also have "\<dots> = None"
      using Suc.hyps Suc.prems False by (intro Suc.hyps(1)) auto
    finally show ?thesis .
  qed
qed

lemma endsWith_single: "x \<noteq> [] \<Longrightarrow> endsWith x [c] = (last x = c)"
  by (cases x rule: rev_cases) (auto simp: endsWith_def)

lemma acceptMatch_plain:
  assumes "\<not> endsWith (substring s (idx - 10) idx) quoteStr" "\<not> contextAware pii" "key \<noteq> ''creditCard''"
  shows "acceptMatch key pii s off idx e ms = ms @ [\<lparr>m_text = substring s idx e, m_index = idx + off\<rparr>]"
  using assms by (simp add: acceptMatch_def isJsonStructure_def Let_def)

text \<open>
  The scan of a text that holds one email address \<open>w\<close> at \<open>b\<close> between exclamation
  marks (or the end of the text).
\<close>

lemma scan_single_email:
  assumes len: "length s = b + length w + n" and b: "10 \<le> b"
    and before: "\<forall>p < b. s ! p = CHR ''!''"
    and after: "\<forall>p. b + length w \<le> p \<and> p < length s \<longrightarrow> s ! p = CHR ''!''"
    and w: "take (length w) (drop b s) = w" "w \<noteq> []"
    and small: "matchRx False w emailRx Some 0 = Some (length w)"
  shows "scanMatches ''email'' emailPii s off 0 [] = Some [\<lparr>m_text = w, m_index = b + off\<rparr>]"
proof -
  let ?e = "b + length w"
  have win: "windowOf s b w False emailRx"
    unfolding windowOf_def using len b before after w(1) bang_not_word bang_rejected
    by (auto simp: less_diff_conv)
  have hit: "matchRx False s emailRx Some b = Some ?e"
    using matchRx_window[OF win, of Some "\<lambda>e. b + e" Some 0] small by simp
  have skip: "\<forall>p. 0 \<le> p \<and> p < b \<longrightarrow> matchRx False s emailRx Some p = None"
    using before by (auto intro: email_fails)
  have "execFrom False emailRx s 0 = execFrom False emailRx s b"
    using len by (intro execFrom_skip[OF skip]) simp_all
  also have "\<dots> = Some (b, ?e)"
    using hit len by (subst execFrom.simps) simp
  finally have first: "regexExec (pattern emailPii) s 0 = Some (b, ?e)"
    by (simp add: regexExec_def emailPii_fields)
  have "\<forall>p. ?e \<le> p \<and> p \<le> length s \<longrightarrow> matchRx False s emailRx Some p = None"
    using after by (auto intro!: email_fails)
  then have "execFrom False emailRx s ?e = None" by (rule execFrom_none)
  then have second: "regexExec (pattern emailPii) s ?e = None"
    by (simp add: regexExec_def emailPii_fields)
  have found: "substring s b ?e = w"
    using w(1) by (simp add: substring_take_drop)
  have "substring s (b - 10) b = take 10 (drop (b - 10) s)"
    using b by (simp add: substring_take_drop)
  moreover have "last (take 10 (drop (b - 10) s)) = s ! (b - 1)"
    using b len by (simp add: last_conv_nth min_def nth_append)
  moreover have "s ! (b - 1) = CHR ''!''" using before b by simp
  moreover have "length (take 10 (drop (b - 10) s)) = 10" using b len by simp
  ultimately have "take 10 (drop (b - 10) s) \<noteq> []"
    and "last (substring s (b - 10) b) = CHR ''!''" by auto
  then have noquote: "\<not> endsWith (substring s (b - 10) b) quoteStr"
    using b by (simp add: quoteStr_def endsWith_single substring_take_drop)
  have acc: "acceptMatch ''email'' emailPii s off b ?e [] = [\<lparr>m_text = w, m_index = b + off\<rparr>]"
    using acceptMatch_plain[OF noquote, of emailPii "''email''" off ?e "[]"] found
    by (simp add: emailPii_fields)
  have adv: "\<not> ?e \<le> 0" using w(2) by simp
  have "scanMatches ''email'' emailPii s off 0 []
      = scanMatches ''email'' emailPii s off ?e [\<lparr>m_text = w, m_index = b + off\<rparr>]"
    using first acc w(2) by (subst scanMatches.simps) (auto simp: emailPii_fields)
  also have "\<dots> = Some [\<lparr>m_text = w, m_index = b + off\<rparr>]"
    using second by (subst scanMatches.simps) simp
  finally show ?thesis .
qed

lemma triples_member:
  assumes "distinct (map fst dp)"
  shows "((key, i, t) \<in># triples dp) = (\<lparr>m_text = t, m_index = i\<rparr> \<in> set (matchesAt dp key))"
proof -
  have m: "(i = m_index m \<and> t = m_text m) = (m = \<lparr>m_text = t, m_index = i\<rparr>)" for m :: match
    by (cases m) auto
  have "((key, i, t) \<in># triples dp)
      = (\<exists>d. (key, d) \<in> set dp \<and> (\<exists>m \<in> set (d_matches d). i = m_index m \<and> t = m_text m))"
    unfolding triples_def by (simp add: image_iff split_beta) force
  also have "\<dots> = (\<exists>d. (key, d) \<in> set dp \<and> \<lparr>m_text = t, m_index = i\<rparr> \<in> set (d_matches d))"
    unfolding m by simp
  also have "\<dots> = (\<exists>d. map_of dp key = Some d \<and> \<lparr>m_text = t, m_index = i\<rparr> \<in> set (d_matches d))"
    using assms by simp
  also have "\<dots> = (\<lparr>m_text = t, m_index = i\<rparr> \<in> set (matchesAt dp key))"
    by (cases "map_of dp key") (simp_all add: matchesAt_def)
  finally show ?thesis .
qed

lemma boundary_length: "length boundaryDocument = 50001"
  by (simp add: boundaryDocument_def)

lemma boundary_scan:
  "scanEntry sortedPatterns boundaryDocument 0 ''email''
     = [\<lparr>m_text = ''john.doe@email.com'', m_index = 9983\<rparr>]"
proof -
  have "scanMatches ''email'' emailPii boundaryDocument 0 0 []
      = Some [\<lparr>m_text = ''john.doe@email.com'', m_index = 9983 + 0\<rparr>]"
  proof (rule scan_single_email[where n = 40000])
    show "length boundaryDocument = 9983 + length ''john.doe@email.com'' + 40000"
      by (simp add: boundaryDocument_def)
    show "(10::nat) \<le> 9983" by simp
    show "\<forall>p<9983. boundaryDocument ! p = CHR ''!''"
      by (simp add: boundaryDocument_def nth_append)
    show "\<forall>p. 9983 + length ''john.doe@email.com'' \<le> p \<and> p < length boundaryDocument
            \<longrightarrow> boundaryDocument ! p = CHR ''!''"
      by (auto simp: boundaryDocument_def nth_append)
    show "take (length ''john.doe@email.com'') (drop 9983 boundaryDocument) = ''john.doe@email.com''"
      by (simp add: boundaryDocument_def)
    show "''john.doe@email.com'' \<noteq> []" by simp
    show "matchRx False ''john.doe@email.com'' emailRx Some 0 = Some (length ''john.doe@email.com'')"
      using email_small by simp
  qed
  then show ?thesis by (simp add: scanEntry_def email_lookup emailPii_def)
qed

lemma first_chunk: "c_text (chunkAt boundaryDocument 0) = replicate 9983 CHR ''!'' @ ''john.doe@email.co''"
  by (simp add: chunkAt_def slice_def boundaryDocument_def)

lemma first_chunk_scan:
  "scanEntry sortedPatterns (c_text (chunkAt boundaryDocument 0)) (c_offset (chunkAt boundaryDocument 0)) ''email''
     = [\<lparr>m_text = ''john.doe@email.co'', m_index = 9983\<rparr>]"
proof -
  let ?c = "replicate 9983 CHR ''!'' @ ''john.doe@email.co''"
  have "scanMatches ''email'' emailPii ?c 0 0 []
      = Some [\<lparr>m_text = ''john.doe@email.co'', m_index = 9983 + 0\<rparr>]"
  proof (rule scan_single_email[where n = 0])
    show "length ?c = 9983 + length ''john.doe@email.co'' + 0" by simp
    show "(10::nat) \<le> 9983" by simp
    show "\<forall>p<9983. ?c ! p = CHR ''!''" by (simp add: nth_append)
    show "\<forall>p. 9983 + length ''john.doe@email.co'' \<le> p \<and> p < length ?c \<longrightarrow> ?c ! p = CHR ''!''"
      by auto
    show "take (length ''john.doe@email.co'') (drop 9983 ?c) = ''john.doe@email.co''" by simp
    show "''john.doe@email.co'' \<noteq> []" by simp
    show "matchRx False ''john.doe@email.co'' emailRx Some 0 = Some (length ''john.doe@email.co'')"
      using email_small_cut by simp
  qed
  then show ?thesis
    by (simp add: first_chunk scanEntry_def email_lookup emailPii_def) (simp add: chunkAt_def)
qed

lemma scan_no_email:
  assumes "\<forall>p < length s. s ! p = CHR ''!''"
  shows "scanMatches ''email'' emailPii s off 0 [] = Some []"
proof -
  have "\<forall>p. 0 \<le> p \<and> p \<le> length s \<longrightarrow> matchRx False s emailRx Some p = None"
    using assms by (auto intro!: email_fails simp: not_le[symmetric])
  then have "execFrom False emailRx s 0 = None" by (rule execFrom_none)
  then have "regexExec (pattern emailPii) s 0 = None"
    by (simp add: regexExec_def emailPii_fields)
  then show ?thesis by (subst scanMatches.simps) simp
qed

lemma boundary_chunks:
  "makeChunks boundaryDocument 0
     = map (chunkAt boundaryDocument) [0, 9500, 19000, 28500, 38000, 47500]"
proof -
  have "[0 ..< (length boundaryDocument + 9499) div 9500] = [0, 1, 2, 3, 4, 5]"
    by (simp add: boundary_length upt_rec)
  then show ?thesis unfolding makeChunks_eq by simp
qed

lemma second_chunk:
  "c_text (chunkAt boundaryDocument 9500)
     = replicate 483 CHR ''!'' @ ''john.doe@email.com'' @ replicate 9499 CHR ''!''"
  by (simp add: chunkAt_def slice_def boundaryDocument_def)

lemma second_chunk_scan:
  "scanEntry sortedPatterns (c_text (chunkAt boundaryDocument 9500)) 9500 ''email''
     = [\<lparr>m_text = ''john.doe@email.com'', m_index = 9983\<rparr>]"
proof -
  let ?c = "replicate 483 CHR ''!'' @ ''john.doe@email.com'' @ replicate 9499 CHR ''!''"
  have "scanMatches ''email'' emailPii ?c 9500 0 []
      = Some [\<lparr>m_text = ''john.doe@email.com'', m_index = 483 + 9500\<rparr>]"
  proof (rule scan_single_email[where n = 9499])
    show "length ?c = 483 + length ''john.doe@email.com'' + 9499" by simp
    show "(10::nat) \<le> 483" by simp
    show "\<forall>p<483. ?c ! p = CHR ''!''" by (simp add: nth_append)
    show "\<forall>p. 483 + length ''john.doe@email.com'' \<le> p \<and> p < length ?c \<longrightarrow> ?c ! p = CHR ''!''"
      by (auto simp: nth_append)
    show "take (length ''john.doe@email.com'') (drop 483 ?c) = ''john.doe@email.com''" by simp
    show "''john.doe@email.com'' \<noteq> []" by simp
    show "matchRx False ''john.doe@email.com'' emailRx Some 0 = Some (length ''john.doe@email.com'')"
      using email_small by simp
  qed
  then show ?thesis
    by (simp add: second_chunk scanEntry_def email_lookup emailPii_def)
qed

lemma later_chunk:
  assumes "10001 \<le> i"
  shows "scanEntry sortedPatterns (c_text (chunkAt boundaryDocument i)) off ''email'' = []"
proof -
  have "\<forall>p < length (c_text (chunkAt boundaryDocument i)). c_text (chunkAt boundaryDocument i) ! p = CHR ''!''"
    using assms by (auto simp: chunkAt_def slice_def boundaryDocument_def nth_append)
  then have "scanMatches ''email'' emailPii (c_text (chunkAt boundaryDocument i)) off 0 [] = Some []"
    by (rule scan_no_email)
  then show ?thesis by (simp add: scanEntry_def email_lookup emailPii_def)
qed

lemma chunk_offset: "c_offset (chunkAt doc i) = i"
  by (simp add: chunkAt_def)

lemma keepFirst_two:
  "keepFirst [\<lparr>m_text = ''john.doe@email.co'', m_index = 9983\<rparr>,
              \<lparr>m_text = ''john.doe@email.com'', m_index = 9983\<rparr>]
     = [\<lparr>m_text = ''john.doe@email.co'', m_index = 9983\<rparr>,
        \<lparr>m_text = ''john.doe@email.com'', m_index = 9983\<rparr>]"
  by (simp add: keepFirst_def samePair_def upt_rec)

lemma chunked_email:
  assumes "processLargeText [] boundaryDocument = Some chunked"
  shows "matchesAt chunked ''email''
     = [\<lparr>m_text = ''john.doe@email.co'', m_index = 9983\<rparr>,
        \<lparr>m_text = ''john.doe@email.com'', m_index = 9983\<rparr>]"
  unfolding large_matchesAt[OF assms] boundary_chunks
  using first_chunk_scan second_chunk_scan
  by (simp add: chunk_offset later_chunk keepFirst_two)

lemma trim_unchanged:
  assumes "s \<noteq> []" "\<not> isSpaceChar (hd s)" "\<not> isSpaceChar (last s)"
  shows "trim s = s"
proof -
  from assms(1,2) have "dropWhile isSpaceChar s = s" by (cases s) simp_all
  moreover from assms(1,3) have "dropWhile isSpaceChar (rev s) = rev s"
    by (cases s rule: rev_cases) simp_all
  ultimately show ?thesis by (simp add: trim_def)
qed

lemma bang_not_space: "\<not> isSpaceChar CHR ''!''"
  by code_simp

lemma boundary_trim: "trim boundaryDocument = boundaryDocument"
proof (rule trim_unchanged)
  show "boundaryDocument \<noteq> []" by (simp add: boundaryDocument_def)
  have "hd boundaryDocument = CHR ''!''"
    by (simp add: boundaryDocument_def hd_append)
  then show "\<not> isSpaceChar (hd boundaryDocument)" by (simp add: bang_not_space)
  have "last boundaryDocument = CHR ''!''"
    by (simp add: boundaryDocument_def)
  then show "\<not> isSpaceChar (last boundaryDocument)" by (simp add: bang_not_space)
qed

text \<open>
  Claim C2: chunked detection followed by the deduplicator yields the same multiset of
  (category, start offset, text) triples as one pass over the document.  The code does not:
  \<^term>\<open>boundaryDocument\<close> has 50001 characters, so \<^term>\<open>analyzeText\<close> takes the
  chunked path; its only address starts at offset 9983 and ends at 10001, one character after
  the end of the first chunk.  The first chunk yields the truncated address
  \<open>john.doe@email.co\<close> at offset 9983, the second chunk yields the whole address at the same
  offset, and since their identifiers differ the deduplicator keeps both.  The single pass
  records the whole address only.
\<close>

theorem C2_chunk_edge:
  "length boundaryDocument = 50001
   \<and> (\<exists>chunked single.
         processLargeText [] boundaryDocument = Some chunked
       \<and> processStandardText [] boundaryDocument = Some single
       \<and> analyzeText freshTool boundaryDocument = Some (freshTool\<lparr>detectedPII := chunked\<rparr>, None)
       \<and> matchesAt chunked ''email''
            = [\<lparr>m_text = ''john.doe@email.co'', m_index = 9983\<rparr>,
               \<lparr>m_text = ''john.doe@email.com'', m_index = 9983\<rparr>]
       \<and> matchesAt single ''email'' = [\<lparr>m_text = ''john.doe@email.com'', m_index = 9983\<rparr>]
       \<and> (''email'', 9983, ''john.doe@email.co'') \<in># triples chunked
       \<and> (''email'', 9983, ''john.doe@email.co'') \<notin># triples single
       \<and> triples chunked \<noteq> triples single)"
proof -
  obtain chunked where c: "processLargeText [] boundaryDocument = Some chunked"
    using large_total by blast
  obtain single where s: "processStandardText [] boundaryDocument = Some single"
    using standard_total by blast
  have an: "analyzeText freshTool boundaryDocument = Some (freshTool\<lparr>detectedPII := chunked\<rparr>, None)"
    using c by (simp add: analyzeText_def boundary_trim boundary_length)
      (simp add: boundaryDocument_def)
  have cm: "matchesAt chunked ''email''
      = [\<lparr>m_text = ''john.doe@email.co'', m_index = 9983\<rparr>,
         \<lparr>m_text = ''john.doe@email.com'', m_index = 9983\<rparr>]"
    using c by (rule chunked_email)
  have sm: "matchesAt single ''email'' = [\<lparr>m_text = ''john.doe@email.com'', m_index = 9983\<rparr>]"
    using standard_matchesAt[OF s, of "''email''"] boundary_scan by simp
  have inC: "(''email'', 9983, ''john.doe@email.co'') \<in># triples chunked"
    by (simp add: triples_member[OF large_distinct[OF c]] cm)
  have ninS: "(''email'', 9983, ''john.doe@email.co'') \<notin># triples single"
    by (simp add: triples_member[OF standard_distinct[OF s]] sm)
  from inC ninS have "triples chunked \<noteq> triples single" by auto
  with c s an cm sm inC ninS boundary_length show ?thesis by blast
qed

section \<open>Overlapping matches\<close>













end
